theory Spec2Isabelle
  imports Main "HOL-Library.Sublist"
begin

section \<open>Texts\<close>

text \<open>
  The tools of \<^verbatim>\<open>src/tools/ComposerTools.ts\<close> work on JavaScript strings. A text is
  modelled as a \<^typ>\<open>string\<close>, one \<^typ>\<open>char\<close> per code unit, so the model covers texts
  whose code units lie below 256. Carriage return and line feed are the code units 13
  and 10.
\<close>

abbreviation CR :: char where "CR \<equiv> CHR 0x0D"
abbreviation LF :: char where "LF \<equiv> CHR 0x0A"

text \<open>
  White space as \<^verbatim>\<open>String.prototype.trim\<close> and the regular expression class
  \<^verbatim>\<open>\s\<close> read it, below code unit 256: tab, line feed, vertical tab, form feed,
  carriage return, space and no-break space.
\<close>

definition isWhitespace :: "char \<Rightarrow> bool" where
  "isWhitespace c \<longleftrightarrow> c \<in> set [CHR 0x09, LF, CHR 0x0B, CHR 0x0C, CR, CHR 0x20, CHR 0xA0]"

definition trimStart :: "string \<Rightarrow> string" where
  "trimStart s = dropWhile isWhitespace s"

definition trimEnd :: "string \<Rightarrow> string" where
  "trimEnd s = rev (dropWhile isWhitespace (rev s))"

definition trim :: "string \<Rightarrow> string" where
  "trim s = trimEnd (trimStart s)"

text \<open>\<^verbatim>\<open>str.includes(p)\<close>: \<open>p\<close> occurs in \<open>str\<close> as a contiguous run.\<close>

fun includesStr :: "string \<Rightarrow> string \<Rightarrow> bool" where
  "includesStr [] p = (p = [])"
| "includesStr (c # cs) p = (prefix p (c # cs) \<or> includesStr cs p)"

subsection \<open>Replacement by a pattern without captures\<close>

text \<open>\<^verbatim>\<open>text.replace(/\r\n/g, "\n")\<close>\<close>

fun replaceCrLf :: "string \<Rightarrow> string" where
  "replaceCrLf (c # d # cs) =
     (if c = CR \<and> d = LF then LF # replaceCrLf cs else c # replaceCrLf (d # cs))"
| "replaceCrLf cs = cs"

text \<open>\<^verbatim>\<open>text.replace(/\r/g, "\n")\<close>\<close>

definition replaceCr :: "string \<Rightarrow> string" where
  "replaceCr s = map (\<lambda>c. if c = CR then LF else c) s"

text \<open>\<^verbatim>\<open>text.replace(/\n/g, "\r\n")\<close>\<close>

fun replaceLf :: "string \<Rightarrow> string" where
  "replaceLf [] = []"
| "replaceLf (c # cs) = (if c = LF then CR # LF # replaceLf cs else c # replaceLf cs)"

text \<open>The number of matches of \<^verbatim>\<open>/\r\n/g\<close>.\<close>

fun countCrLf :: "string \<Rightarrow> nat" where
  "countCrLf (c # d # cs) =
     (if c = CR \<and> d = LF then Suc (countCrLf cs) else countCrLf (d # cs))"
| "countCrLf cs = 0"

text \<open>
  The number of matches of \<^verbatim>\<open>/(?<!\r)\n/g\<close>: line feeds that do not follow a
  carriage return. The flag says whether the code unit before the text is one.
\<close>

fun countBareLf :: "bool \<Rightarrow> string \<Rightarrow> nat" where
  "countBareLf afterCr [] = 0"
| "countBareLf afterCr (c # cs) =
     (if c = LF \<and> \<not> afterCr then Suc (countBareLf (c = CR) cs)
      else countBareLf (c = CR) cs)"

subsection \<open>\<^verbatim>\<open>String.prototype.replaceAll\<close> with a string pattern\<close>

text \<open>
  The replacement value is a template (ECMAScript's GetSubstitution): \<^verbatim>\<open>$$\<close> stands
  for a dollar sign, \<^verbatim>\<open>$&\<close> for the matched text, \<^verbatim>\<open>$`\<close> for the text before the
  match and \<^verbatim>\<open>$'\<close> for the text after it. A string pattern has no capture groups, so
  every other dollar sign stands for itself. The text before the match is kept reversed.
\<close>

fun getSubstitution :: "string \<Rightarrow> string \<Rightarrow> string \<Rightarrow> string \<Rightarrow> string" where
  "getSubstitution matched revBefore after (c # d # t) =
     (if c = CHR ''$'' then
        (if d = CHR ''$'' then CHR ''$'' # getSubstitution matched revBefore after t
         else if d = CHR ''&'' then matched @ getSubstitution matched revBefore after t
         else if d = CHR 0x60 then rev revBefore @ getSubstitution matched revBefore after t
         else if d = CHR 0x27 then after @ getSubstitution matched revBefore after t
         else c # getSubstitution matched revBefore after (d # t))
      else c # getSubstitution matched revBefore after (d # t))"
| "getSubstitution matched revBefore after t = t"

text \<open>
  The matches are found from left to right; after a match the search goes on behind it,
  and behind an empty match one code unit further. An empty pattern therefore matches at
  every position from 0 to the length of the text.
\<close>

function replaceAllFrom :: "string \<Rightarrow> string \<Rightarrow> string \<Rightarrow> string \<Rightarrow> string" where
  "replaceAllFrom revBefore rest s r =
     (if prefix s rest then
        getSubstitution s revBefore (drop (length s) rest) r @
        (if s = [] then
           (case rest of [] \<Rightarrow> [] | c # cs \<Rightarrow> c # replaceAllFrom (c # revBefore) cs s r)
         else replaceAllFrom (rev s @ revBefore) (drop (length s) rest) s r)
      else (case rest of [] \<Rightarrow> [] | c # cs \<Rightarrow> c # replaceAllFrom (c # revBefore) cs s r))"
  by pat_completeness auto
termination
  by (relation "measure (\<lambda>(revBefore, rest, s, r). length rest)") (auto simp: prefix_def)

declare replaceAllFrom.simps [simp del]

definition replaceAll :: "string \<Rightarrow> string \<Rightarrow> string \<Rightarrow> string" where
  "replaceAll str searchString replaceValue = replaceAllFrom [] str searchString replaceValue"

section \<open>Line endings\<close>

text \<open>\<^verbatim>\<open>normalizeLineEndings\<close> (lines 257 to 259).\<close>

definition normalizeLineEndings :: "string \<Rightarrow> string" where
  "normalizeLineEndings text = replaceCr (replaceCrLf text)"

text \<open>
  \<^verbatim>\<open>replaceWithLineEndingAwareness\<close> (lines 265 to 292). Its local constants
  \<^verbatim>\<open>crlfCount\<close>, \<^verbatim>\<open>lfCount\<close> and \<^verbatim>\<open>usesCrlf\<close> and its last step, the conversion back
  when \<^verbatim>\<open>usesCrlf\<close> holds, are definitions of their own.
\<close>

definition crlfCount :: "string \<Rightarrow> nat" where
  "crlfCount content = countCrLf content"

definition lfCount :: "string \<Rightarrow> nat" where
  "lfCount content = countBareLf False content"

definition usesCrlf :: "string \<Rightarrow> bool" where
  "usesCrlf content \<longleftrightarrow> crlfCount content > lfCount content"

definition restoreLineEndings :: "bool \<Rightarrow> string \<Rightarrow> string" where
  "restoreLineEndings crlf resultNormalized =
     (if crlf then replaceLf resultNormalized else resultNormalized)"

definition replaceWithLineEndingAwareness :: "string \<Rightarrow> string \<Rightarrow> string \<Rightarrow> string" where
  "replaceWithLineEndingAwareness content searchText replaceText =
     (let normalizedContent = normalizeLineEndings content;
          normalizedSearchText = normalizeLineEndings searchText;
          normalizedReplaceText = normalizeLineEndings replaceText;
          resultNormalized =
            replaceAll normalizedContent normalizedSearchText normalizedReplaceText
      in restoreLineEndings (usesCrlf content) resultNormalized)"

subsection \<open>Texts of one line-ending convention\<close>

text \<open>
  The two line-ending styles are LF and CRLF. A text follows the LF convention when it
  has no carriage return, and the CRLF convention when every carriage return is followed
  at once by a line feed and every line feed follows a carriage return at once.
\<close>

definition lfOnly :: "string \<Rightarrow> bool" where
  "lfOnly x \<longleftrightarrow> CR \<notin> set x"

fun crlfOnly :: "string \<Rightarrow> bool" where
  "crlfOnly [] = True"
| "crlfOnly (c # cs) =
     (if c = CR then (case cs of [] \<Rightarrow> False | d # ds \<Rightarrow> d = LF \<and> crlfOnly ds)
      else c \<noteq> LF \<and> crlfOnly cs)"

section \<open>The instruction grammar\<close>

text \<open>
  \<^verbatim>\<open>parseSearchReplaceBlocks\<close> (lines 435 to 461) builds one regular expression from
  three marker expressions and two lazy capture groups and runs it over the instruction
  with the global flag. The expressions use only literals, a character class repeated
  greedily at least \<open>n\<close> times, an optional group and sequencing; a backtracking matcher
  for these is written in continuation style: the continuation is the rest of the
  expression, and the first alternative that lets it succeed wins, as in JavaScript.
\<close>

datatype charClass = Only char | Space | AnyChar

fun inClass :: "charClass \<Rightarrow> char \<Rightarrow> bool" where
  "inClass (Only x) c = (c = x)"
| "inClass Space c = isWhitespace c"
| "inClass AnyChar c = True"

datatype regex = Lit string | AtLeast nat charClass | Optional regex | Then regex regex

text \<open>\<^verbatim>\<open>cl{n,}\<close>: as many code units of the class as possible first, then fewer.\<close>

fun greedy :: "nat \<Rightarrow> charClass \<Rightarrow> string \<Rightarrow> (string \<Rightarrow> 'a option) \<Rightarrow> 'a option" where
  "greedy n cl [] k = (if n = 0 then k [] else None)"
| "greedy n cl (c # cs) k =
     (if inClass cl c then
        (case greedy (n - 1) cl cs k of
           Some res \<Rightarrow> Some res
         | None \<Rightarrow> if n = 0 then k (c # cs) else None)
      else if n = 0 then k (c # cs) else None)"

fun rmatch :: "regex \<Rightarrow> string \<Rightarrow> (string \<Rightarrow> 'a option) \<Rightarrow> 'a option" where
  "rmatch (Lit l) s k = (if prefix l s then k (drop (length l) s) else None)"
| "rmatch (AtLeast n cl) s k = greedy n cl s k"
| "rmatch (Optional r) s k = (case rmatch r s k of Some res \<Rightarrow> Some res | None \<Rightarrow> k s)"
| "rmatch (Then a b) s k = rmatch a s (\<lambda>s'. rmatch b s' k)"

text \<open>
  The capture group \<^verbatim>\<open>([\s\S]*?)\<close>: any code units, as few as possible first. The
  continuation receives the captured text and the rest.
\<close>

fun lazyCapture :: "string \<Rightarrow> string \<Rightarrow> (string \<Rightarrow> string \<Rightarrow> 'a option) \<Rightarrow> 'a option" where
  "lazyCapture revCaptured [] k = k (rev revCaptured) []"
| "lazyCapture revCaptured (c # cs) k =
     (case k (rev revCaptured) (c # cs) of
        Some res \<Rightarrow> Some res
      | None \<Rightarrow> lazyCapture (c # revCaptured) cs k)"

text \<open>\<^verbatim>\<open>(?:\r?\n)?\<close>\<close>

definition OPT_NEWLINE :: regex where
  "OPT_NEWLINE = Optional (Then (Optional (Lit [CR])) (Lit [LF]))"

text \<open>\<^verbatim>\<open>/-{3,}\s*SEARCH\s*(?:\r?\n)?/\<close>\<close>

definition SEARCH_MARKER :: regex where
  "SEARCH_MARKER =
     Then (AtLeast 3 (Only (CHR ''-''))) (Then (AtLeast 0 Space)
       (Then (Lit ''SEARCH'') (Then (AtLeast 0 Space) OPT_NEWLINE)))"

text \<open>\<^verbatim>\<open>/(?:\r?\n)?={3,}\s*(?:\r?\n)?/\<close>\<close>

definition SEPARATOR :: regex where
  "SEPARATOR =
     Then OPT_NEWLINE (Then (AtLeast 3 (Only (CHR ''=''))) (Then (AtLeast 0 Space) OPT_NEWLINE))"

text \<open>\<^verbatim>\<open>/(?:\r?\n)?\+{3,}\s*REPLACE/\<close>\<close>

definition REPLACE_MARKER :: regex where
  "REPLACE_MARKER =
     Then OPT_NEWLINE (Then (AtLeast 3 (Only (CHR ''+'')))
       (Then (AtLeast 0 Space) (Lit ''REPLACE'')))"

text \<open>
  One attempt of \<^verbatim>\<open>blockRegex\<close> at the start of a text: the two captured texts and the
  text behind the match, or \<open>None\<close>.
\<close>

definition blockRegex :: "string \<Rightarrow> (string \<times> string \<times> string) option" where
  "blockRegex s =
     rmatch SEARCH_MARKER s (\<lambda>s1.
       lazyCapture [] s1 (\<lambda>match1 s2.
         rmatch SEPARATOR s2 (\<lambda>s3.
           lazyCapture [] s3 (\<lambda>match2 s4.
             rmatch REPLACE_MARKER s4 (\<lambda>s5. Some (match1, match2, s5))))))"

subsection \<open>A match consumes text\<close>

fun minLen :: "regex \<Rightarrow> nat" where
  "minLen (Lit l) = length l"
| "minLen (AtLeast n cl) = n"
| "minLen (Optional r) = 0"
| "minLen (Then a b) = minLen a + minLen b"

lemma greedy_consumes:
  "greedy n cl s k = Some x \<Longrightarrow> \<exists>s'. k s' = Some x \<and> length s' + n \<le> length s"
proof (induction s arbitrary: n)
  case Nil
  then show ?case by (auto split: if_splits)
next
  case (Cons c cs)
  show ?case
  proof (cases "greedy (n - 1) cl cs k")
    case None
    with Cons.prems show ?thesis by (auto split: if_splits)
  next
    case (Some y)
    show ?thesis
    proof (cases "inClass cl c")
      case True
      with Some Cons.prems have "y = x" by simp
      with Some Cons.IH [of "n - 1"] obtain s' where
        "k s' = Some x" "length s' + (n - 1) \<le> length cs"
        by blast
      then show ?thesis by (intro exI [of _ s']) auto
    next
      case False
      with Cons.prems show ?thesis by (auto split: if_splits)
    qed
  qed
qed

lemma rmatch_consumes:
  "rmatch r s k = Some x \<Longrightarrow> \<exists>s'. k s' = Some x \<and> length s' + minLen r \<le> length s"
proof (induction r arbitrary: s k x)
  case (Lit l)
  then have p: "prefix l s" and k: "k (drop (length l) s) = Some x"
    by (simp_all split: if_splits)
  from p have "length l \<le> length s" by (rule prefix_length_le)
  with k show ?case by (intro exI [of _ "drop (length l) s"]) simp
next
  case (AtLeast n cl)
  then show ?case using greedy_consumes by simp
next
  case (Optional r)
  show ?case
  proof (cases "rmatch r s k")
    case None
    with Optional.prems show ?thesis by auto
  next
    case (Some y)
    with Optional.prems have "y = x" by simp
    with Some Optional.IH [of s k x] show ?thesis by auto
  qed
next
  case (Then a b)
  from Then.prems have "rmatch a s (\<lambda>s'. rmatch b s' k) = Some x" by simp
  from Then.IH(1) [OF this] obtain s1 where
    s1: "rmatch b s1 k = Some x" "length s1 + minLen a \<le> length s" by blast
  from Then.IH(2) [OF s1(1)] obtain s2 where
    "k s2 = Some x" "length s2 + minLen b \<le> length s1" by blast
  with s1(2) show ?case by (intro exI [of _ s2]) auto
qed

lemma lazyCapture_consumes:
  "lazyCapture acc s k = Some x \<Longrightarrow> \<exists>m s'. k m s' = Some x \<and> length s' \<le> length s"
proof (induction s arbitrary: acc)
  case Nil
  then show ?case by auto
next
  case (Cons c cs)
  show ?case
  proof (cases "k (rev acc) (c # cs)")
    case None
    with Cons.prems have "lazyCapture (c # acc) cs k = Some x" by simp
    from Cons.IH [OF this] obtain m s' where "k m s' = Some x" "length s' \<le> length cs"
      by blast
    then show ?thesis by (intro exI [of _ m] exI [of _ s']) simp
  next
    case (Some y)
    with Cons.prems have "y = x" by simp
    with Some show ?thesis by (intro exI [of _ "rev acc"] exI [of _ "c # cs"]) simp
  qed
qed

lemma blockRegex_consumes:
  assumes "blockRegex s = Some (m1, m2, rest)"
  shows "length rest < length s"
proof -
  from rmatch_consumes [OF assms [unfolded blockRegex_def]] obtain s1 where
    s1: "lazyCapture [] s1 (\<lambda>match1 s2.
         rmatch SEPARATOR s2 (\<lambda>s3.
           lazyCapture [] s3 (\<lambda>match2 s4.
             rmatch REPLACE_MARKER s4 (\<lambda>s5. Some (match1, match2, s5))))) = Some (m1, m2, rest)"
    and l1: "length s1 + minLen SEARCH_MARKER \<le> length s" by blast
  from lazyCapture_consumes [OF s1] obtain c1 s2 where
    s2: "rmatch SEPARATOR s2 (\<lambda>s3.
           lazyCapture [] s3 (\<lambda>match2 s4.
             rmatch REPLACE_MARKER s4 (\<lambda>s5. Some (c1, match2, s5)))) = Some (m1, m2, rest)"
    and l2: "length s2 \<le> length s1" by blast
  from rmatch_consumes [OF s2] obtain s3 where
    s3: "lazyCapture [] s3 (\<lambda>match2 s4.
             rmatch REPLACE_MARKER s4 (\<lambda>s5. Some (c1, match2, s5))) = Some (m1, m2, rest)"
    and l3: "length s3 \<le> length s2" by auto
  from lazyCapture_consumes [OF s3] obtain c2 s4 where
    s4: "rmatch REPLACE_MARKER s4 (\<lambda>s5. Some (c1, c2, s5)) = Some (m1, m2, rest)"
    and l4: "length s4 \<le> length s3" by blast
  from rmatch_consumes [OF s4] obtain s5 where
    "Some (c1, c2, s5) = Some (m1, m2, rest)" and l5: "length s5 \<le> length s4" by auto
  then have "s5 = rest" by simp
  moreover have "minLen SEARCH_MARKER = 9" by (simp add: SEARCH_MARKER_def OPT_NEWLINE_def)
  ultimately show ?thesis using l1 l2 l3 l4 l5 by simp
qed

subsection \<open>The parser\<close>

record block =
  searchText :: string
  replaceText :: string

text \<open>
  The loop \<^verbatim>\<open>while ((match = blockRegex.exec(diff)) !== null)\<close>: the expression is tried
  at the current position and then one code unit further until it matches; the next
  search starts behind the match. Both captured texts are trimmed.
\<close>

function parseFrom :: "string \<Rightarrow> block list" where
  "parseFrom s =
     (case blockRegex s of
        Some (match1, match2, rest) \<Rightarrow>
          \<lparr>searchText = trim match1, replaceText = trim match2\<rparr> # parseFrom rest
      | None \<Rightarrow> (case s of [] \<Rightarrow> [] | c # cs \<Rightarrow> parseFrom cs))"
  by pat_completeness auto
termination
  by (relation "measure length") (auto simp: blockRegex_consumes)

declare parseFrom.simps [simp del]

definition parseSearchReplaceBlocks :: "string \<Rightarrow> block list" where
  "parseSearchReplaceBlocks diff = parseFrom diff"

section \<open>The document store and \<^verbatim>\<open>replaceInFile\<close>\<close>

text \<open>
  The vault maps a path to what \<^verbatim>\<open>app.vault.getAbstractFileByPath\<close> finds there: a
  file with its content, a folder, or nothing. The files of the vault are the files of
  the directory on disk.
\<close>

type_synonym path = string

datatype abstractFile = TFile string | TFolder

type_synonym vault = "path \<Rightarrow> abstractFile option"

text \<open>
  Modelled from the spec: the type \<^verbatim>\<open>ApplyViewResult\<close> of \<^verbatim>\<open>@/types\<close> is the
  decision of a preview, one of accepted, rejected and failed.
\<close>

datatype ApplyViewResult = Accepted | Rejected | Failed

fun resultText :: "ApplyViewResult \<Rightarrow> string" where
  "resultText Accepted = ''accepted''"
| "resultText Rejected = ''rejected''"
| "resultText Failed = ''failed''"

subsection \<open>Version control\<close>

text \<open>
  The vault directory may lie in a git work tree. A commit has a subject line, at most
  one parent and the files of its tree; the repository maps hashes to commits and knows
  the commit \<^verbatim>\<open>HEAD\<close> points to. Commands are taken to receive paths and hashes as
  they are written (no shell metacharacters in them).
\<close>

type_synonym hash = string

record commit =
  subject :: string
  parent :: "hash option"
  tree :: "path \<Rightarrow> string option"

record repo =
  commits :: "hash \<Rightarrow> commit option"
  headCommit :: "hash option"

subsection \<open>The world a tool runs in\<close>

text \<open>
  Besides the vault and the repository, the world fixes what the collaborators outside
  the source file do during a call:
  \<^item> \<open>git\<close> is \<open>None\<close> when the vault is not inside a git work tree;
  \<^item> \<open>modifyError\<close>, \<open>trashError\<close>, \<open>renameError\<close>: when \<open>Some e\<close>, the call of
    \<^verbatim>\<open>app.vault.modify\<close>, \<^verbatim>\<open>app.vault.trash\<close> or \<^verbatim>\<open>app.fileManager.renameFile\<close>
    throws, and \<open>e\<close> is the text the handler's message template renders for the error;
  \<^item> \<open>commitError\<close>: when \<open>Some e\<close>, the command \<^verbatim>\<open>git add -A && git commit\<close> fails;
  \<^item> \<open>newCommitHash\<close> is the hash git gives the next commit;
  \<^item> \<open>applyView\<close> is the preview surface: given the vault, the path and the candidate
    content it returns the user's decision and the vault it leaves behind;
  \<^item> \<open>ensureFolderExists\<close> is the helper of \<^verbatim>\<open>@/utils\<close>: it throws or returns the
    vault with the folder in place.
\<close>

record world =
  vault :: vault
  git :: "repo option"
  autoAcceptEdits :: bool
  modifyError :: "string option"
  trashError :: "string option"
  renameError :: "string option"
  commitError :: "string option"
  newCommitHash :: hash
  applyView :: "vault \<Rightarrow> path \<Rightarrow> string \<Rightarrow> ApplyViewResult \<times> vault"
  ensureFolderExists :: "vault \<Rightarrow> path \<Rightarrow> string + vault"

subsection \<open>\<^verbatim>\<open>replaceInFileTool\<close> (lines 294 to 390)\<close>

text \<open>The decimal digits of a number, as a template literal renders it.\<close>

definition digitChar :: "nat \<Rightarrow> char" where
  "digitChar d = char_of (48 + d)"

function showNat :: "nat \<Rightarrow> string" where
  "showNat n = (if n < 10 then [digitChar n] else showNat (n div 10) @ [digitChar (n mod 10)])"
  by pat_completeness auto
termination
  by (relation "measure id") auto

declare showNat.simps [simp del]

text \<open>
  A reply of the handler is a plain message or the JSON object with the fields
  \<^verbatim>\<open>result\<close>, \<^verbatim>\<open>blocksApplied\<close> and \<^verbatim>\<open>message\<close>.
\<close>

datatype reply = Message string | Outcome ApplyViewResult nat string

definition MIN_FILE_SIZE_FOR_REPLACE :: nat where
  "MIN_FILE_SIZE_FOR_REPLACE = 3000"

text \<open>
  The loop over the blocks (lines 325 to 350), with its two variables
  \<^verbatim>\<open>modifiedContent\<close> and \<^verbatim>\<open>changesApplied\<close>. It ends with the failure message of the
  first block that is not found, or with the final content and count.
\<close>

fun applyBlocks :: "path \<Rightarrow> block list \<Rightarrow> string \<Rightarrow> nat \<Rightarrow> string + string \<times> nat" where
  "applyBlocks path [] modifiedContent changesApplied = Inr (modifiedContent, changesApplied)"
| "applyBlocks path (block # blocks) modifiedContent changesApplied =
     (let normalizedContent = normalizeLineEndings modifiedContent;
          normalizedSearchText = normalizeLineEndings (searchText block)
      in if \<not> includesStr normalizedContent normalizedSearchText
            \<and> \<not> includesStr normalizedContent (trimEnd normalizedSearchText)
         then Inl (''Search text not found in file '' @ path @ '' : '' @ [CHR 0x22]
                   @ searchText block @ [CHR 0x22] @ ''.'')
         else
           let (searchText', replaceText') =
                 (if \<not> includesStr normalizedContent normalizedSearchText
                  then (trimEnd (searchText block), trimEnd (replaceText block))
                  else (searchText block, replaceText block));
               beforeReplace = modifiedContent;
               modifiedContent' =
                 replaceWithLineEndingAwareness modifiedContent searchText' replaceText'
           in applyBlocks path blocks modifiedContent'
                (if modifiedContent' \<noteq> beforeReplace then changesApplied + 1
                 else changesApplied))"

text \<open>
  The handler up to its no-op check (lines 299 to 354): a failure message, or the
  candidate content with the number of blocks counted. Reading a file of the vault
  succeeds.
\<close>

definition patchResult :: "world \<Rightarrow> path \<Rightarrow> string \<Rightarrow> string + string \<times> nat" where
  "patchResult w path diff =
     (case vault w path of
        None \<Rightarrow>
          Inl (''File not found at path: '' @ path
               @ ''. Please check the file path and try again.'')
      | Some TFolder \<Rightarrow>
          Inl (''File not found at path: '' @ path
               @ ''. Please check the file path and try again.'')
      | Some (TFile originalContent) \<Rightarrow>
          if length originalContent < MIN_FILE_SIZE_FOR_REPLACE
          then Inl ''File is too small to use this tool. Please use writeToFile instead.''
          else
            let searchReplaceBlocks = parseSearchReplaceBlocks diff
            in if length searchReplaceBlocks = 0
               then Inl (''No valid SEARCH/REPLACE blocks found in diff. Please use the correct format with ------- SEARCH, =======, and +++++++ REPLACE markers. ''
                         @ [LF] @ '' diff: '' @ diff)
               else
                 (case applyBlocks path searchReplaceBlocks originalContent 0 of
                    Inl failure \<Rightarrow> Inl failure
                  | Inr (modifiedContent, changesApplied) \<Rightarrow>
                      if originalContent = modifiedContent
                      then Inl (''No changes made to '' @ path
                                @ ''. The search text was not found or replacement resulted in identical content. Call writeToFile instead'')
                      else Inr (modifiedContent, changesApplied)))"

text \<open>
  The whole handler: the candidate is written at once when \<^verbatim>\<open>autoAcceptEdits\<close> is
  set, and handed to the preview otherwise (lines 356 to 384).
\<close>

definition replaceInFile :: "world \<Rightarrow> path \<Rightarrow> string \<Rightarrow> reply \<times> world" where
  "replaceInFile w path diff =
     (case patchResult w path diff of
        Inl failure \<Rightarrow> (Message failure, w)
      | Inr (modifiedContent, changesApplied) \<Rightarrow>
          if autoAcceptEdits w then
            (case modifyError w of
               None \<Rightarrow>
                 (Outcome Accepted changesApplied
                    (''Applied '' @ showNat changesApplied
                     @ '' SEARCH/REPLACE block(s) without preview. Do not call this tool again to modify this file in response to the current user request.''),
                  w\<lparr>vault := (vault w)(path \<mapsto> TFile modifiedContent)\<rparr>)
             | Some error \<Rightarrow>
                 (Outcome Failed changesApplied
                    (''Error applying changes without preview: '' @ error), w))
          else
            (let (result, vault') = applyView w (vault w) path modifiedContent
             in (Outcome result changesApplied
                   (''Applied '' @ showNat changesApplied
                    @ '' SEARCH/REPLACE block(s) (replacing all occurrences). Result: ''
                    @ resultText result
                    @ ''. Do not call this tool again to modify this file in response to the current user request.''),
                 w\<lparr>vault := vault'\<rparr>)))"

text \<open>
  The test and the update of one turn of the loop, named for the statements below: whether
  the block is found in the working content (lines 332 to 340), and the working content
  after its replacement (lines 334 to 344).
\<close>

definition blockFound :: "string \<Rightarrow> block \<Rightarrow> bool" where
  "blockFound modifiedContent block \<longleftrightarrow>
     includesStr (normalizeLineEndings modifiedContent) (normalizeLineEndings (searchText block))
     \<or> includesStr (normalizeLineEndings modifiedContent)
          (trimEnd (normalizeLineEndings (searchText block)))"

definition blockStep :: "string \<Rightarrow> block \<Rightarrow> string" where
  "blockStep modifiedContent block =
     (if includesStr (normalizeLineEndings modifiedContent)
           (normalizeLineEndings (searchText block))
      then replaceWithLineEndingAwareness modifiedContent (searchText block) (replaceText block)
      else replaceWithLineEndingAwareness modifiedContent (trimEnd (searchText block))
             (trimEnd (replaceText block)))"

section \<open>Backups and recovery\<close>

text \<open>The tree \<^verbatim>\<open>git add -A\<close> stages: the files of the vault directory.\<close>

definition snapshot :: "vault \<Rightarrow> path \<Rightarrow> string option" where
  "snapshot v p = (case v p of Some (TFile content) \<Rightarrow> Some content | _ \<Rightarrow> None)"

text \<open>
  \<^verbatim>\<open>gitCommitBeforeRiskyAction\<close> (lines 25 to 49). The first command fails outside a
  work tree and the second when the commit cannot be made; either exception is caught
  and the result is \<^verbatim>\<open>false\<close>.
\<close>

definition gitCommitBeforeRiskyAction :: "world \<Rightarrow> string \<Rightarrow> bool \<times> world" where
  "gitCommitBeforeRiskyAction w action =
     (case git w of
        None \<Rightarrow> (False, w)
      | Some r \<Rightarrow>
          (let commitMessage = ''[Auto-backup] '' @ action
           in case commitError w of
                Some e \<Rightarrow> (False, w)
              | None \<Rightarrow>
                  (True,
                   w\<lparr>git := Some (r\<lparr>commits := (commits r)(newCommitHash w \<mapsto>
                                        \<lparr>subject = commitMessage, parent = headCommit r,
                                         tree = snapshot (vault w)\<rparr>),
                                     headCommit := Some (newCommitHash w)\<rparr>)\<rparr>)))"

text \<open>
  The JSON replies of the file tools: a failure with its message; a deletion or a move
  with the \<^verbatim>\<open>gitBackup\<close> flag; a recovery with the path and the commit.
\<close>

datatype toolReply =
    Failure string
  | Deleted bool string
  | Moved bool path path string
  | Recovered path hash string

text \<open>
  \<^verbatim>\<open>deleteNoteTool\<close> (lines 486 to 522). The handler does not read its
  \<^verbatim>\<open>confirmation\<close> argument. The file goes to the trash, out of the vault.
\<close>

definition deleteNote :: "world \<Rightarrow> path \<Rightarrow> toolReply \<times> world" where
  "deleteNote w path =
     (case vault w path of
        Some (TFile content) \<Rightarrow>
          (let (gitBackup, w1) = gitCommitBeforeRiskyAction w (''Before deleting: '' @ path)
           in case trashError w1 of
                Some e \<Rightarrow> (Failure (''Error deleting file: '' @ e), w1)
              | None \<Rightarrow>
                  (Deleted gitBackup
                     (''File '' @ [CHR 0x22] @ path @ [CHR 0x22] @ '' has been moved to trash.''
                      @ (if gitBackup then '' A git backup was created before deletion.'' else [])
                      @ '' You can restore it from Obsidian's .trash folder or use git to recover.''),
                   w1\<lparr>vault := (vault w1)(path := None)\<rparr>))
      | _ \<Rightarrow>
          (Failure (''File not found at path: '' @ path
                    @ ''. Please check the file path and try again.''), w))"

text \<open>
  \<^verbatim>\<open>destinationPath.split("/").slice(0, -1).join("/")\<close>: the path up to its last
  slash.
\<close>

definition parentFolder :: "path \<Rightarrow> path" where
  "parentFolder p = rev (tl (dropWhile (\<lambda>c. c \<noteq> CHR ''/'') (rev p)))"

text \<open>
  \<^verbatim>\<open>moveNoteTool\<close> (lines 538 to 597). The rename moves the file; the links that
  \<^verbatim>\<open>renameFile\<close> rewrites in other notes are not modelled.
\<close>

definition moveNote :: "world \<Rightarrow> path \<Rightarrow> path \<Rightarrow> toolReply \<times> world" where
  "moveNote w sourcePath destinationPath =
     (case vault w sourcePath of
        Some (TFile content) \<Rightarrow>
          if vault w destinationPath \<noteq> None
          then (Failure (''Destination path '' @ [CHR 0x22] @ destinationPath @ [CHR 0x22]
                         @ '' already exists. Please choose a different destination.''), w)
          else
            (let destFolder =
                   (if CHR ''/'' \<in> set destinationPath then parentFolder destinationPath else [])
             in case (if destFolder \<noteq> [] then ensureFolderExists w (vault w) destFolder
                      else Inr (vault w)) of
                  Inl e \<Rightarrow> (Failure (''Error moving file: '' @ e), w)
                | Inr v1 \<Rightarrow>
                    (let (gitBackup, w2) =
                           gitCommitBeforeRiskyAction (w\<lparr>vault := v1\<rparr>)
                             (''Before moving: '' @ sourcePath @ '' -> '' @ destinationPath)
                     in case renameError w2 of
                          Some e \<Rightarrow> (Failure (''Error moving file: '' @ e), w2)
                        | None \<Rightarrow>
                            (Moved gitBackup sourcePath destinationPath
                               (''File moved from '' @ [CHR 0x22] @ sourcePath @ [CHR 0x22]
                                @ '' to '' @ [CHR 0x22] @ destinationPath @ [CHR 0x22]
                                @ ''. All internal links have been updated.''
                                @ (if gitBackup then '' A git backup was created before the move.''
                                   else [])),
                             w2\<lparr>vault := (vault w2)(sourcePath := None,
                                                   destinationPath \<mapsto> TFile content)\<rparr>)))
      | _ \<Rightarrow>
          (Failure (''Source file not found at path: '' @ sourcePath
                    @ ''. Please check the file path and try again.''), w))"

text \<open>
  A git command that fails makes \<^verbatim>\<open>execAsync\<close> reject with an error whose message
  is \<^verbatim>\<open>Command failed:\<close>, the command line, and what git wrote to the error
  stream.
\<close>

definition commandFailed :: "string \<Rightarrow> string \<Rightarrow> string" where
  "commandFailed command stderr = ''Command failed: '' @ command @ [LF] @ stderr @ [LF]"

text \<open>
  \<^verbatim>\<open>git log -1 --format="%s" commitHash\<close>: the subject line of the commit and a line
  feed, or the error.
\<close>

definition gitLogSubject :: "world \<Rightarrow> hash \<Rightarrow> string + string" where
  "gitLogSubject w commitHash =
     (let command = ''git log -1 --format='' @ [CHR 0x22] @ ''%s'' @ [CHR 0x22] @ '' ''
                    @ commitHash
      in case git w of
           None \<Rightarrow>
             Inl (commandFailed command
                    ''fatal: not a git repository (or any of the parent directories): .git'')
         | Some r \<Rightarrow>
             (case commits r commitHash of
                None \<Rightarrow> Inl (commandFailed command (''fatal: bad object '' @ commitHash))
              | Some c \<Rightarrow> Inr (subject c @ [LF])))"

text \<open>
  \<^verbatim>\<open>git checkout commitHash^ -- "filePath"\<close>: the content of the file in the tree of the
  commit's parent, which the command writes to the work tree, or the error.
\<close>

definition gitCheckoutParent :: "world \<Rightarrow> hash \<Rightarrow> path \<Rightarrow> string + string" where
  "gitCheckoutParent w commitHash filePath =
     (let command = ''git checkout '' @ commitHash @ ''^ -- '' @ [CHR 0x22] @ filePath
                    @ [CHR 0x22];
          invalid = commandFailed command (''fatal: invalid reference: '' @ commitHash @ ''^'')
      in case git w of
           None \<Rightarrow>
             Inl (commandFailed command
                    ''fatal: not a git repository (or any of the parent directories): .git'')
         | Some r \<Rightarrow>
             (case commits r commitHash of
                None \<Rightarrow> Inl invalid
              | Some c \<Rightarrow>
                  (case parent c of
                     None \<Rightarrow> Inl invalid
                   | Some p \<Rightarrow>
                       (case commits r p of
                          None \<Rightarrow> Inl invalid
                        | Some pc \<Rightarrow>
                            (case tree pc filePath of
                               None \<Rightarrow>
                                 Inl (commandFailed command
                                        (''error: pathspec '' @ [CHR 0x27] @ filePath
                                         @ [CHR 0x27]
                                         @ '' did not match any file(s) known to git''))
                             | Some content \<Rightarrow> Inr content)))))"

text \<open>\<^verbatim>\<open>undoFileOperationTool\<close> (lines 696 to 752).\<close>

definition undoFileOperation :: "world \<Rightarrow> hash \<Rightarrow> path \<Rightarrow> toolReply \<times> world" where
  "undoFileOperation w commitHash filePath =
     (case gitLogSubject w commitHash of
        Inl e \<Rightarrow>
          (if includesStr e ''did not match any file''
           then (Failure (''File '' @ [CHR 0x22] @ filePath @ [CHR 0x22]
                          @ '' was not found in git history at that commit. The file path may be incorrect.''), w)
           else (Failure (''Error recovering file: '' @ e), w))
      | Inr commitInfo \<Rightarrow>
          if \<not> includesStr commitInfo ''[Auto-backup]''
          then (Failure (''Commit '' @ commitHash
                         @ '' is not an [Auto-backup] commit. Please use listRecentFileOperations to find valid commits.''), w)
          else if vault w filePath \<noteq> None
          then (Failure (''File '' @ [CHR 0x22] @ filePath @ [CHR 0x22]
                         @ '' already exists. Delete or move it first if you want to recover an older version.''), w)
          else
            (case gitCheckoutParent w commitHash filePath of
               Inl e \<Rightarrow>
                 (if includesStr e ''did not match any file''
                  then (Failure (''File '' @ [CHR 0x22] @ filePath @ [CHR 0x22]
                                 @ '' was not found in git history at that commit. The file path may be incorrect.''), w)
                  else (Failure (''Error recovering file: '' @ e), w))
             | Inr content \<Rightarrow>
                 (Recovered filePath commitHash
                    (''File '' @ [CHR 0x22] @ filePath @ [CHR 0x22]
                     @ '' has been recovered from git history. The file has been restored to its state before the operation. You may need to refresh the file tree to see it.''),
                  w\<lparr>vault := (vault w)(filePath \<mapsto> TFile content)\<rparr>)))"

section \<open>Properties of the line-ending functions\<close>

lemma replaceCrLf_no_cr: "CR \<notin> set x \<Longrightarrow> replaceCrLf x = x"
  by (induction x rule: replaceCrLf.induct) auto

lemma replaceCr_no_cr: "CR \<notin> set x \<Longrightarrow> replaceCr x = x"
  by (induction x) (auto simp: replaceCr_def)

lemma normalize_no_cr: "CR \<notin> set x \<Longrightarrow> normalizeLineEndings x = x"
  by (simp add: normalizeLineEndings_def replaceCrLf_no_cr replaceCr_no_cr)

lemma countCrLf_no_cr: "CR \<notin> set x \<Longrightarrow> countCrLf x = 0"
  by (induction x rule: countCrLf.induct) auto

lemma replaceCr_Cons: "replaceCr (c # cs) = (if c = CR then LF else c) # replaceCr cs"
  by (simp add: replaceCr_def)

lemma replaceCr_Nil: "replaceCr [] = []"
  by (simp add: replaceCr_def)

lemma crlfOnly_roundtrip: "crlfOnly x \<Longrightarrow> replaceLf (replaceCr (replaceCrLf x)) = x"
proof (induction x rule: crlfOnly.induct)
  case 1
  show ?case by (simp add: replaceCr_Nil)
next
  case (2 c cs)
  show ?case
  proof (cases "c = CR")
    case True
    with "2.prems" obtain ds where cs: "cs = LF # ds" and ds: "crlfOnly ds"
      by (auto split: list.splits)
    with True "2.IH"(1) show ?thesis by (simp add: replaceCr_Cons)
  next
    case False
    with "2.prems" have c: "c \<noteq> LF" and cs: "crlfOnly cs" by auto
    from False c cs "2.IH"(2) show ?thesis
      by (cases cs) (auto simp: replaceCr_Cons replaceCr_Nil)
  qed
qed

lemma crlfOnly_countBareLf: "crlfOnly x \<Longrightarrow> countBareLf b x = 0"
proof (induction x arbitrary: b rule: crlfOnly.induct)
  case 1
  show ?case by simp
next
  case (2 c cs)
  show ?case
  proof (cases "c = CR")
    case True
    with "2.prems" obtain ds where cs: "cs = LF # ds" and ds: "crlfOnly ds"
      by (auto split: list.splits)
    with True "2.IH"(1) show ?thesis by simp
  next
    case False
    with "2.prems" "2.IH"(2) show ?thesis by auto
  qed
qed

lemma crlfOnly_no_crlf: "crlfOnly x \<Longrightarrow> countCrLf x = 0 \<Longrightarrow> CR \<notin> set x"
proof (induction x rule: crlfOnly.induct)
  case 1
  show ?case by simp
next
  case (2 c cs)
  show ?case
  proof (cases "c = CR")
    case True
    with "2.prems" show ?thesis by (auto split: list.splits)
  next
    case False
    with "2.prems" "2.IH"(2) show ?thesis by (cases cs) auto
  qed
qed

lemma restore_normalize_lfOnly:
  assumes "lfOnly x"
  shows "restoreLineEndings (usesCrlf x) (normalizeLineEndings x) = x"
  using assms
  by (simp add: lfOnly_def restoreLineEndings_def usesCrlf_def crlfCount_def
      countCrLf_no_cr normalize_no_cr)

lemma restore_normalize_crlfOnly:
  assumes "crlfOnly x"
  shows "restoreLineEndings (usesCrlf x) (normalizeLineEndings x) = x"
proof (cases "usesCrlf x")
  case True
  with assms show ?thesis
    by (simp add: restoreLineEndings_def normalizeLineEndings_def crlfOnly_roundtrip)
next
  case False
  with assms have "countCrLf x = 0"
    by (simp add: usesCrlf_def crlfCount_def lfCount_def crlfOnly_countBareLf)
  with assms have "CR \<notin> set x" by (rule crlfOnly_no_crlf)
  with False show ?thesis by (simp add: restoreLineEndings_def normalize_no_cr)
qed

text \<open>
  Claim C6. For every text \<open>x\<close> that uses a single consistent line-ending convention (LF
  throughout, or CRLF throughout), normalising \<open>x\<close> (CRLF to LF, then every remaining
  carriage return to LF) and restoring with the style detected from \<open>x\<close> gives \<open>x\<close> back.
\<close>

theorem C6_restore_normalize_detect:
  "lfOnly x \<or> crlfOnly x \<Longrightarrow> restoreLineEndings (usesCrlf x) (normalizeLineEndings x) = x"
  using restore_normalize_lfOnly restore_normalize_crlfOnly by blast

theorem C6_restore_normalize_detect_witness:
  "crlfOnly [CHR ''a'', CR, LF, CHR ''b'', CR, LF]
   \<and> usesCrlf [CHR ''a'', CR, LF, CHR ''b'', CR, LF]
   \<and> restoreLineEndings (usesCrlf [CHR ''a'', CR, LF, CHR ''b'', CR, LF])
        (normalizeLineEndings [CHR ''a'', CR, LF, CHR ''b'', CR, LF])
       = [CHR ''a'', CR, LF, CHR ''b'', CR, LF]"
  using C6_restore_normalize_detect [of "[CHR ''a'', CR, LF, CHR ''b'', CR, LF]"]
  by (simp add: usesCrlf_def crlfCount_def lfCount_def)

text \<open>
  A text whose line breaks are lone carriage returns follows neither of the two
  conventions; its style is detected as LF and it comes back with line feeds.
\<close>

lemma lone_cr_comes_back_as_lf:
  "restoreLineEndings (usesCrlf [CHR ''a'', CR, CHR ''b''])
     (normalizeLineEndings [CHR ''a'', CR, CHR ''b'']) = [CHR ''a'', LF, CHR ''b'']"
  by code_simp

subsection \<open>The output of a replacement in a CRLF text\<close>

lemma normalize_has_no_cr: "CR \<notin> set (normalizeLineEndings x)"
  by (auto simp: normalizeLineEndings_def replaceCr_def)

lemma getSubstitution_within:
  "set m \<subseteq> S \<Longrightarrow> set rb \<subseteq> S \<Longrightarrow> set a \<subseteq> S \<Longrightarrow> set t \<subseteq> S
   \<Longrightarrow> set (getSubstitution m rb a t) \<subseteq> S"
  by (induction m rb a t rule: getSubstitution.induct) (simp_all, blast)

lemma replaceAllFrom_within:
  "set rb \<subseteq> S \<Longrightarrow> set rest \<subseteq> S \<Longrightarrow> set s \<subseteq> S \<Longrightarrow> set r \<subseteq> S
   \<Longrightarrow> set (replaceAllFrom rb rest s r) \<subseteq> S"
proof (induction rb rest s r rule: replaceAllFrom.induct)
  case (1 rb rest s r)
  have d: "set (drop (length s) rest) \<subseteq> S"
    using set_drop_subset [of "length s" rest] "1.prems"(2) by blast
  have g: "set (getSubstitution s rb (drop (length s) rest) r) \<subseteq> S"
    using "1.prems" d by (simp add: getSubstitution_within)
  show ?case
  proof (cases "prefix s rest")
    case p: True
    show ?thesis
    proof (cases "s = []")
      case True
      show ?thesis
      proof (cases rest)
        case Nil
        with p True g show ?thesis by (subst replaceAllFrom.simps) simp
      next
        case (Cons c cs)
        with p True g "1.IH"(1) [of c cs] "1.prems" show ?thesis
          by (subst replaceAllFrom.simps) simp
      qed
    next
      case False
      with p g d "1.IH"(2) "1.prems" show ?thesis
        by (subst replaceAllFrom.simps) simp
    qed
  next
    case np: False
    show ?thesis
    proof (cases rest)
      case Nil
      with np show ?thesis by (subst replaceAllFrom.simps) simp
    next
      case (Cons c cs)
      with np "1.IH"(3) [of c cs] "1.prems" show ?thesis
        by (subst replaceAllFrom.simps) simp
    qed
  qed
qed

lemma replaceAll_normalized_no_cr:
  "CR \<notin> set (replaceAll (normalizeLineEndings c) (normalizeLineEndings s)
                 (normalizeLineEndings r))"
proof -
  have "set (replaceAllFrom [] (normalizeLineEndings c) (normalizeLineEndings s)
               (normalizeLineEndings r)) \<subseteq> - {CR}"
    by (rule replaceAllFrom_within) (use normalize_has_no_cr in auto)
  then show ?thesis by (auto simp: replaceAll_def)
qed

lemma replaceLf_crlfOnly: "CR \<notin> set t \<Longrightarrow> crlfOnly (replaceLf t)"
  by (induction t) auto

lemma replaceLf_countBareLf: "countBareLf b (replaceLf t) = 0"
  by (induction t arbitrary: b) auto

text \<open>
  Claim C10. For every content whose detected predominant style is CRLF, the output of
  one line-ending-aware replacement has no line feed that does not follow a carriage
  return: every line terminator of the result is CRLF, also in the regions the
  replacement never touched, so bare line feeds of untouched lines become CRLF.
\<close>

theorem C10_crlf_output_uniform:
  assumes "usesCrlf content"
  shows "lfCount (replaceWithLineEndingAwareness content search replacement) = 0
       \<and> crlfOnly (replaceWithLineEndingAwareness content search replacement)"
  using assms replaceAll_normalized_no_cr [of content search replacement]
  by (simp add: replaceWithLineEndingAwareness_def restoreLineEndings_def lfCount_def
      replaceLf_countBareLf replaceLf_crlfOnly)

theorem C10_crlf_output_uniform_witness:
  "usesCrlf [CHR ''a'', CR, LF, CHR ''b'', CR, LF, CHR ''c'', LF, CHR ''d'']
   \<and> replaceWithLineEndingAwareness
        [CHR ''a'', CR, LF, CHR ''b'', CR, LF, CHR ''c'', LF, CHR ''d''] ''a'' ''x''
       = [CHR ''x'', CR, LF, CHR ''b'', CR, LF, CHR ''c'', CR, LF, CHR ''d'']
   \<and> lfCount (replaceWithLineEndingAwareness
        [CHR ''a'', CR, LF, CHR ''b'', CR, LF, CHR ''c'', LF, CHR ''d''] ''a'' ''x'') = 0
   \<and> crlfOnly (replaceWithLineEndingAwareness
        [CHR ''a'', CR, LF, CHR ''b'', CR, LF, CHR ''c'', LF, CHR ''d''] ''a'' ''x'')"
proof -
  have u: "usesCrlf [CHR ''a'', CR, LF, CHR ''b'', CR, LF, CHR ''c'', LF, CHR ''d'']"
    by (simp add: usesCrlf_def crlfCount_def lfCount_def)
  have e: "replaceWithLineEndingAwareness
        [CHR ''a'', CR, LF, CHR ''b'', CR, LF, CHR ''c'', LF, CHR ''d''] ''a'' ''x''
       = [CHR ''x'', CR, LF, CHR ''b'', CR, LF, CHR ''c'', CR, LF, CHR ''d'']"
    by code_simp
  from u e C10_crlf_output_uniform [OF u, of "''a''" "''x''"] show ?thesis
    by simp
qed

section \<open>Documents that begin with a run of one character\<close>

text \<open>
  \<^verbatim>\<open>replaceInFile\<close> works only on documents of at least 3000 code units. The
  concrete documents below begin with a run of one character that is neither a line
  terminator nor part of any search text; every function of the loop passes over such a
  run unchanged, so that the loop is run on the rest of the document.
\<close>

lemma includesStr_pad: "p \<noteq> [] \<Longrightarrow> x \<notin> set p \<Longrightarrow> includesStr (x # c) p = includesStr c p"
  by (cases p) auto

lemma replaceCrLf_pad: "x \<noteq> CR \<Longrightarrow> replaceCrLf (x # c) = x # replaceCrLf c"
  by (cases c) auto

lemma normalize_pad: "x \<noteq> CR \<Longrightarrow> normalizeLineEndings (x # c) = x # normalizeLineEndings c"
  by (simp add: normalizeLineEndings_def replaceCrLf_pad replaceCr_Cons)

lemma countCrLf_pad: "x \<noteq> CR \<Longrightarrow> countCrLf (x # c) = countCrLf c"
  by (cases c) auto

lemma usesCrlf_pad: "x \<noteq> CR \<Longrightarrow> x \<noteq> LF \<Longrightarrow> usesCrlf (x # c) = usesCrlf c"
  by (simp add: usesCrlf_def crlfCount_def lfCount_def countCrLf_pad)

lemma getSubstitution_plain: "CHR ''$'' \<notin> set r \<Longrightarrow> getSubstitution m rb a r = r"
  by (induction m rb a r rule: getSubstitution.induct) auto

lemma replaceAllFrom_before:
  "CHR ''$'' \<notin> set r \<Longrightarrow> replaceAllFrom rb c s r = replaceAllFrom rb' c s r"
proof (induction "length c" arbitrary: rb rb' c rule: less_induct)
  case less
  show ?case
  proof (cases c)
    case Nil
    with less.prems show ?thesis
      by (simp add: replaceAllFrom.simps [of _ "[]"] getSubstitution_plain)
  next
    case (Cons d ds)
    have a: "replaceAllFrom (d # rb) ds s r = replaceAllFrom (d # rb') ds s r"
      using less.hyps [of ds] less.prems Cons by simp
    show ?thesis
    proof (cases "prefix s c \<and> s \<noteq> []")
      case True
      then have "length (drop (length s) c) < length c" using Cons by simp
      from less.hyps [OF this less.prems]
      have "replaceAllFrom (rev s @ rb) (drop (length s) c) s r
            = replaceAllFrom (rev s @ rb') (drop (length s) c) s r" .
      with True less.prems show ?thesis
        by (simp add: replaceAllFrom.simps [of _ c] getSubstitution_plain)
    next
      case False
      with a Cons less.prems show ?thesis
        by (auto simp: replaceAllFrom.simps [of _ "d # ds"] getSubstitution_plain)
    qed
  qed
qed

lemma replaceAll_pad:
  assumes "s \<noteq> []" "x \<notin> set s" "CHR ''$'' \<notin> set r"
  shows "replaceAll (x # c) s r = x # replaceAll c s r"
proof -
  from assms(1,2) have "\<not> prefix s (x # c)" by (cases s) auto
  then have "replaceAllFrom [] (x # c) s r = x # replaceAllFrom [x] c s r"
    by (simp add: replaceAllFrom.simps [of _ "x # c"])
  with replaceAllFrom_before [OF assms(3), of "[x]" c s "[]"] show ?thesis
    by (simp add: replaceAll_def)
qed

lemma restore_pad: "x \<noteq> LF \<Longrightarrow> restoreLineEndings b (x # t) = x # restoreLineEndings b t"
  by (simp add: restoreLineEndings_def)

lemma rwlea_pad:
  assumes "x \<noteq> CR" "x \<noteq> LF" "normalizeLineEndings s \<noteq> []" "x \<notin> set (normalizeLineEndings s)"
    "CHR ''$'' \<notin> set (normalizeLineEndings r)"
  shows "replaceWithLineEndingAwareness (x # c) s r = x # replaceWithLineEndingAwareness c s r"
  using assms
  by (simp add: replaceWithLineEndingAwareness_def normalize_pad usesCrlf_pad replaceAll_pad
      restore_pad)

text \<open>
  A character is inert for a block when it is no line terminator and does not occur in
  the normalised search text, which is not empty and has no trailing white space, and
  the normalised replacement text has no dollar sign.
\<close>

definition inert :: "char \<Rightarrow> block \<Rightarrow> bool" where
  "inert x b \<longleftrightarrow>
     x \<noteq> CR \<and> x \<noteq> LF
     \<and> normalizeLineEndings (searchText b) \<noteq> []
     \<and> x \<notin> set (normalizeLineEndings (searchText b))
     \<and> trimEnd (normalizeLineEndings (searchText b)) = normalizeLineEndings (searchText b)
     \<and> CHR ''$'' \<notin> set (normalizeLineEndings (replaceText b))"

fun padResult :: "string \<Rightarrow> string + string \<times> nat \<Rightarrow> string + string \<times> nat" where
  "padResult pad (Inl e) = Inl e"
| "padResult pad (Inr (c, n)) = Inr (pad @ c, n)"

lemma applyBlocks_pad1:
  "list_all (inert x) blocks \<Longrightarrow>
   applyBlocks path blocks (x # c) n = padResult [x] (applyBlocks path blocks c n)"
proof (induction blocks arbitrary: c n)
  case Nil
  show ?case by simp
next
  case (Cons b bs)
  from Cons.prems have i: "inert x b" and r: "list_all (inert x) bs" by simp_all
  note IH = Cons.IH [OF r]
  from i have x: "x \<noteq> CR" "x \<noteq> LF" and ns: "normalizeLineEndings (searchText b) \<noteq> []"
    "x \<notin> set (normalizeLineEndings (searchText b))"
    and t: "trimEnd (normalizeLineEndings (searchText b)) = normalizeLineEndings (searchText b)"
    and d: "CHR ''$'' \<notin> set (normalizeLineEndings (replaceText b))"
    by (simp_all add: inert_def)
  have inc: "includesStr (normalizeLineEndings (x # c)) (normalizeLineEndings (searchText b))
    = includesStr (normalizeLineEndings c) (normalizeLineEndings (searchText b))"
    unfolding normalize_pad [OF x(1)] by (rule includesStr_pad [OF ns])
  have rw: "replaceWithLineEndingAwareness (x # c) (searchText b) (replaceText b)
    = x # replaceWithLineEndingAwareness c (searchText b) (replaceText b)"
    using x ns d by (rule rwlea_pad)
  show ?case
  proof (cases "includesStr (normalizeLineEndings c) (normalizeLineEndings (searchText b))")
    case True
    with inc rw t IH show ?thesis by (simp add: Let_def)
  next
    case False
    with inc t show ?thesis by (simp add: Let_def)
  qed
qed

lemma padResult_append: "padResult p (padResult q res) = padResult (p @ q) res"
  by (cases res) auto

lemma applyBlocks_pad:
  "list_all (inert x) blocks \<Longrightarrow>
   applyBlocks path blocks (replicate k x @ c) n
   = padResult (replicate k x) (applyBlocks path blocks c n)"
proof (induction k)
  case 0
  show ?case by (cases "applyBlocks path blocks c n") auto
next
  case (Suc k)
  then show ?case by (simp add: applyBlocks_pad1 padResult_append)
qed

section \<open>Properties of \<^verbatim>\<open>replaceInFile\<close>\<close>

text \<open>
  A world without repository in which no collaborator fails and the preview rejects
  every change.
\<close>

definition quietWorld :: "vault \<Rightarrow> world" where
  "quietWorld v =
     \<lparr>vault = v, git = None, autoAcceptEdits = False, modifyError = None, trashError = None,
      renameError = None, commitError = None, newCommitHash = ''c0'',
      applyView = (\<lambda>v p c. (Rejected, v)), ensureFolderExists = (\<lambda>v p. Inr v)\<rparr>"

lemma applyBlocks_append:
  "applyBlocks path (earlier @ later) content n =
     (case applyBlocks path earlier content n of
        Inl e \<Rightarrow> Inl e
      | Inr (working, m) \<Rightarrow> applyBlocks path later working m)"
  by (induction earlier arbitrary: content n) (auto simp: Let_def)

lemma applyBlocks_not_found:
  "\<not> blockFound working block \<Longrightarrow>
   applyBlocks path (block # later) working m =
     Inl (''Search text not found in file '' @ path @ '' : '' @ [CHR 0x22] @ searchText block
          @ [CHR 0x22] @ ''.'')"
  by (simp add: blockFound_def Let_def)

lemma applyBlocks_found:
  "blockFound working block \<Longrightarrow>
   applyBlocks path (block # later) working m =
     applyBlocks path later (blockStep working block)
       (if blockStep working block \<noteq> working then m + 1 else m)"
  by (auto simp: blockFound_def blockStep_def Let_def)

declare applyBlocks.simps(2) [simp del]

text \<open>
  Claim C5. For every existing target file whose content is shorter than the fixed
  minimum size, \<^verbatim>\<open>replaceInFile\<close> rejects the call before it parses any
  SEARCH/REPLACE block (the reply is the same for every instruction text) and without
  changing the document or anything else of the world; the reply steers the caller to
  \<^verbatim>\<open>writeToFile\<close>, the whole-file rewrite.
\<close>

theorem C5_size_gate:
  assumes "vault w path = Some (TFile content)"
    and "length content < MIN_FILE_SIZE_FOR_REPLACE"
  shows "replaceInFile w path diff =
    (Message ''File is too small to use this tool. Please use writeToFile instead.'', w)"
  using assms by (simp add: replaceInFile_def patchResult_def)

theorem C5_size_gate_witness:
  "vault (quietWorld [''note.md'' \<mapsto> TFile ''foo\<newline>foo\<newline>baz'']) ''note.md''
     = Some (TFile ''foo\<newline>foo\<newline>baz'')
   \<and> length ''foo\<newline>foo\<newline>baz'' < MIN_FILE_SIZE_FOR_REPLACE
   \<and> replaceInFile (quietWorld [''note.md'' \<mapsto> TFile ''foo\<newline>foo\<newline>baz'']) ''note.md''
        ''------- SEARCH\<newline>foo\<newline>=======\<newline>bar\<newline>+++++++ REPLACE''
       = (Message ''File is too small to use this tool. Please use writeToFile instead.'',
          quietWorld [''note.md'' \<mapsto> TFile ''foo\<newline>foo\<newline>baz''])"
proof -
  have v: "vault (quietWorld [''note.md'' \<mapsto> TFile ''foo\<newline>foo\<newline>baz'']) ''note.md''
     = Some (TFile ''foo\<newline>foo\<newline>baz'')"
    by (simp add: quietWorld_def)
  have l: "length ''foo\<newline>foo\<newline>baz'' < MIN_FILE_SIZE_FOR_REPLACE"
    by (simp add: MIN_FILE_SIZE_FOR_REPLACE_def)
  from v l C5_size_gate [OF v l] show ?thesis by simp
qed

text \<open>
  Claim C3. For every call of \<^verbatim>\<open>replaceInFile\<close> in which some block's normalised
  search text is absent from the working content at its turn, also after the fallback
  that strips trailing white space, the whole call aborts with a failure that names that
  block's search text, and the world, the stored document included, is the one before
  the call: nothing of the blocks that matched earlier in the call is persisted.
\<close>

theorem C3_abort_leaves_store:
  assumes "vault w path = Some (TFile content)"
    and "MIN_FILE_SIZE_FOR_REPLACE \<le> length content"
    and "parseSearchReplaceBlocks diff = earlier @ block # later"
    and "applyBlocks path earlier content 0 = Inr (working, n)"
    and "\<not> blockFound working block"
  shows "replaceInFile w path diff =
    (Message (''Search text not found in file '' @ path @ '' : '' @ [CHR 0x22]
              @ searchText block @ [CHR 0x22] @ ''.''), w)"
proof -
  have "applyBlocks path (earlier @ block # later) content 0 =
    Inl (''Search text not found in file '' @ path @ '' : '' @ [CHR 0x22] @ searchText block
         @ [CHR 0x22] @ ''.'')"
    using assms(4) applyBlocks_not_found [OF assms(5)] by (simp add: applyBlocks_append)
  with assms(1,2,3) show ?thesis
    by (simp add: replaceInFile_def patchResult_def)
qed

lemma blockFound_pad:
  assumes "inert x b"
  shows "blockFound (replicate k x @ c) b = blockFound c b"
proof (induction k)
  case 0
  show ?case by simp
next
  case (Suc k)
  from assms have x: "x \<noteq> CR" and ns: "normalizeLineEndings (searchText b) \<noteq> []"
    "x \<notin> set (normalizeLineEndings (searchText b))"
    and t: "trimEnd (normalizeLineEndings (searchText b)) = normalizeLineEndings (searchText b)"
    by (simp_all add: inert_def)
  have np: "normalizeLineEndings (x # d) = x # normalizeLineEndings d" for d
    by (rule normalize_pad [OF x])
  have ip: "includesStr (x # d) (normalizeLineEndings (searchText b))
            = includesStr d (normalizeLineEndings (searchText b))" for d
    by (rule includesStr_pad [OF ns])
  have "blockFound (x # replicate k x @ c) b = blockFound (replicate k x @ c) b"
    by (simp only: blockFound_def t np ip)
  with Suc show ?case by simp
qed

lemma parse_two_blocks:
  "parseSearchReplaceBlocks
     ''------- SEARCH\<newline>foo\<newline>=======\<newline>bar\<newline>+++++++ REPLACE\<newline>------- SEARCH\<newline>cat\<newline>=======\<newline>dog\<newline>+++++++ REPLACE''
   = [\<lparr>searchText = ''foo'', replaceText = ''bar''\<rparr>,
      \<lparr>searchText = ''cat'', replaceText = ''dog''\<rparr>]"
  by code_simp

lemma inert_foo_bar: "inert (CHR ''x'') \<lparr>searchText = ''foo'', replaceText = ''bar''\<rparr>"
  by code_simp

lemma inert_cat_dog: "inert (CHR ''x'') \<lparr>searchText = ''cat'', replaceText = ''dog''\<rparr>"
  by code_simp

theorem C3_abort_leaves_store_witness:
  "vault (quietWorld [''note.md'' \<mapsto> TFile (replicate 3000 (CHR ''x'') @ ''foo'')]) ''note.md''
     = Some (TFile (replicate 3000 (CHR ''x'') @ ''foo''))
   \<and> MIN_FILE_SIZE_FOR_REPLACE \<le> length (replicate 3000 (CHR ''x'') @ ''foo'')
   \<and> parseSearchReplaceBlocks
       ''------- SEARCH\<newline>foo\<newline>=======\<newline>bar\<newline>+++++++ REPLACE\<newline>------- SEARCH\<newline>cat\<newline>=======\<newline>dog\<newline>+++++++ REPLACE''
      = [\<lparr>searchText = ''foo'', replaceText = ''bar''\<rparr>]
        @ \<lparr>searchText = ''cat'', replaceText = ''dog''\<rparr> # []
   \<and> applyBlocks ''note.md'' [\<lparr>searchText = ''foo'', replaceText = ''bar''\<rparr>]
        (replicate 3000 (CHR ''x'') @ ''foo'') 0
      = Inr (replicate 3000 (CHR ''x'') @ ''bar'', 1)
   \<and> \<not> blockFound (replicate 3000 (CHR ''x'') @ ''bar'')
          \<lparr>searchText = ''cat'', replaceText = ''dog''\<rparr>
   \<and> replaceInFile (quietWorld [''note.md'' \<mapsto> TFile (replicate 3000 (CHR ''x'') @ ''foo'')])
        ''note.md''
        ''------- SEARCH\<newline>foo\<newline>=======\<newline>bar\<newline>+++++++ REPLACE\<newline>------- SEARCH\<newline>cat\<newline>=======\<newline>dog\<newline>+++++++ REPLACE''
      = (Message (''Search text not found in file note.md : '' @ [CHR 0x22] @ ''cat''
                  @ [CHR 0x22] @ ''.''),
         quietWorld [''note.md'' \<mapsto> TFile (replicate 3000 (CHR ''x'') @ ''foo'')])"
proof -
  let ?doc = "replicate 3000 (CHR ''x'') @ ''foo''"
  let ?w = "quietWorld [''note.md'' \<mapsto> TFile ?doc]"
  have v: "vault ?w ''note.md'' = Some (TFile ?doc)"
    by (simp add: quietWorld_def)
  have l: "MIN_FILE_SIZE_FOR_REPLACE \<le> length ?doc"
    by (simp add: MIN_FILE_SIZE_FOR_REPLACE_def)
  have p: "parseSearchReplaceBlocks
       ''------- SEARCH\<newline>foo\<newline>=======\<newline>bar\<newline>+++++++ REPLACE\<newline>------- SEARCH\<newline>cat\<newline>=======\<newline>dog\<newline>+++++++ REPLACE''
      = [\<lparr>searchText = ''foo'', replaceText = ''bar''\<rparr>]
        @ \<lparr>searchText = ''cat'', replaceText = ''dog''\<rparr> # []"
    using parse_two_blocks by simp
  have core: "applyBlocks ''note.md'' [\<lparr>searchText = ''foo'', replaceText = ''bar''\<rparr>] ''foo'' 0
      = Inr (''bar'', 1)"
    by code_simp
  have a: "applyBlocks ''note.md'' [\<lparr>searchText = ''foo'', replaceText = ''bar''\<rparr>] ?doc 0
      = Inr (replicate 3000 (CHR ''x'') @ ''bar'', 1)"
  proof -
    have "list_all (inert (CHR ''x'')) [\<lparr>searchText = ''foo'', replaceText = ''bar''\<rparr>]"
      using inert_foo_bar by simp
    from applyBlocks_pad [OF this] core show ?thesis by simp
  qed
  have "\<not> blockFound ''bar'' \<lparr>searchText = ''cat'', replaceText = ''dog''\<rparr>"
    by code_simp
  then have n: "\<not> blockFound (replicate 3000 (CHR ''x'') @ ''bar'')
          \<lparr>searchText = ''cat'', replaceText = ''dog''\<rparr>"
    by (simp add: blockFound_pad [OF inert_cat_dog])
  from v l p a n C3_abort_leaves_store [OF v l p a n] show ?thesis by simp
qed

lemma parse_foo_bar:
  "parseSearchReplaceBlocks
     ''------- SEARCH\<newline>foo\<newline>=======\<newline>bar\<newline>+++++++ REPLACE''
   = [\<lparr>searchText = ''foo'', replaceText = ''bar''\<rparr>]"
  by code_simp

lemma patchResult_large:
  assumes "vault w path = Some (TFile content)"
    and "MIN_FILE_SIZE_FOR_REPLACE \<le> length content"
    and "parseSearchReplaceBlocks diff = blocks"
    and "blocks \<noteq> []"
    and "applyBlocks path blocks content 0 = Inr (final, n)"
    and "final \<noteq> content"
  shows "patchResult w path diff = Inr (final, n)"
  using assms by (auto simp: patchResult_def)

text \<open>
  Claim C4, as stated, fails: on a store that holds the 11-character document the size
  gate rejects the call, and no candidate content is produced.
\<close>

theorem C4_store_document_rejected:
  "patchResult (quietWorld [''note.md'' \<mapsto> TFile ''foo\<newline>foo\<newline>baz'']) ''note.md''
     ''------- SEARCH\<newline>foo\<newline>=======\<newline>bar\<newline>+++++++ REPLACE''
   = Inl ''File is too small to use this tool. Please use writeToFile instead.''
   \<and> fst (replaceInFile (quietWorld [''note.md'' \<mapsto> TFile ''foo\<newline>foo\<newline>baz''])
        ''note.md''
        ''------- SEARCH\<newline>foo\<newline>=======\<newline>bar\<newline>+++++++ REPLACE'')
     = Message ''File is too small to use this tool. Please use writeToFile instead.''"
  by (simp add: replaceInFile_def patchResult_def quietWorld_def MIN_FILE_SIZE_FOR_REPLACE_def)

text \<open>
  Claim C4, amended. The instruction parses to exactly one block with search text
  \<open>foo\<close> and replace text \<open>bar\<close>, and the loop over the blocks, run on the content
  \<open>foo\nfoo\nbaz\<close>, yields \<open>bar\nbar\nbaz\<close> with one block counted. The replace
  operation runs the loop only on a stored document of at least 3000 code units: on the
  document of 3000 \<open>x\<close> followed by \<open>foo\nfoo\nbaz\<close> it yields the candidate of 3000
  \<open>x\<close> followed by \<open>bar\nbar\nbaz\<close> with \<open>blocksApplied\<close> equal to 1.
\<close>

theorem C4_parse_and_apply:
  "parseSearchReplaceBlocks
     ''------- SEARCH\<newline>foo\<newline>=======\<newline>bar\<newline>+++++++ REPLACE''
   = [\<lparr>searchText = ''foo'', replaceText = ''bar''\<rparr>]
   \<and> applyBlocks ''note.md''
       (parseSearchReplaceBlocks
          ''------- SEARCH\<newline>foo\<newline>=======\<newline>bar\<newline>+++++++ REPLACE'')
       ''foo\<newline>foo\<newline>baz'' 0
     = Inr (''bar\<newline>bar\<newline>baz'', 1)
   \<and> patchResult
       (quietWorld [''note.md'' \<mapsto> TFile (replicate 3000 (CHR ''x'') @ ''foo\<newline>foo\<newline>baz'')])
       ''note.md''
       ''------- SEARCH\<newline>foo\<newline>=======\<newline>bar\<newline>+++++++ REPLACE''
     = Inr (replicate 3000 (CHR ''x'') @ ''bar\<newline>bar\<newline>baz'', 1)
   \<and> fst (replaceInFile
       (quietWorld [''note.md'' \<mapsto> TFile (replicate 3000 (CHR ''x'') @ ''foo\<newline>foo\<newline>baz'')])
       ''note.md''
       ''------- SEARCH\<newline>foo\<newline>=======\<newline>bar\<newline>+++++++ REPLACE'')
     = Outcome Rejected 1
         ''Applied 1 SEARCH/REPLACE block(s) (replacing all occurrences). Result: rejected. Do not call this tool again to modify this file in response to the current user request.''"
proof -
  let ?diff = "''------- SEARCH\<newline>foo\<newline>=======\<newline>bar\<newline>+++++++ REPLACE''"
  let ?b = "\<lparr>searchText = ''foo'', replaceText = ''bar''\<rparr>"
  let ?doc = "replicate 3000 (CHR ''x'') @ ''foo\<newline>foo\<newline>baz''"
  let ?w = "quietWorld [''note.md'' \<mapsto> TFile ?doc]"
  have core: "applyBlocks ''note.md'' [?b] ''foo\<newline>foo\<newline>baz'' 0
      = Inr (''bar\<newline>bar\<newline>baz'', 1)"
    by code_simp
  have "list_all (inert (CHR ''x'')) [?b]" using inert_foo_bar by simp
  from applyBlocks_pad [OF this] core
  have padded: "applyBlocks ''note.md'' [?b] ?doc 0
      = Inr (replicate 3000 (CHR ''x'') @ ''bar\<newline>bar\<newline>baz'', 1)"
    by simp
  have p: "patchResult ?w ''note.md'' ?diff
      = Inr (replicate 3000 (CHR ''x'') @ ''bar\<newline>bar\<newline>baz'', 1)"
    by (rule patchResult_large [OF _ _ parse_foo_bar _ padded])
      (simp_all add: quietWorld_def MIN_FILE_SIZE_FOR_REPLACE_def)
  have one: "showNat (Suc 0) = ''1''" by code_simp
  have r: "fst (replaceInFile ?w ''note.md'' ?diff)
     = Outcome Rejected 1
         ''Applied 1 SEARCH/REPLACE block(s) (replacing all occurrences). Result: rejected. Do not call this tool again to modify this file in response to the current user request.''"
    unfolding replaceInFile_def p by (simp add: quietWorld_def one)
  from parse_foo_bar core p r show ?thesis by simp
qed

subsection \<open>The line-ending style during the loop\<close>

lemma rwlea_crlf: "usesCrlf c \<Longrightarrow> crlfOnly (replaceWithLineEndingAwareness c s r)"
  using replaceAll_normalized_no_cr [of c s r]
  by (simp add: replaceWithLineEndingAwareness_def restoreLineEndings_def replaceLf_crlfOnly)

lemma rwlea_lf: "\<not> usesCrlf c \<Longrightarrow> lfOnly (replaceWithLineEndingAwareness c s r)"
  using replaceAll_normalized_no_cr [of c s r]
  by (simp add: replaceWithLineEndingAwareness_def restoreLineEndings_def lfOnly_def)

lemma blockStep_style:
  "if usesCrlf c then crlfOnly (blockStep c b) else lfOnly (blockStep c b)"
  by (simp add: blockStep_def rwlea_crlf rwlea_lf)

lemma lfOnly_not_usesCrlf: "lfOnly c \<Longrightarrow> \<not> usesCrlf c"
  by (simp add: lfOnly_def usesCrlf_def crlfCount_def countCrLf_no_cr)

lemma applyBlocks_snoc:
  assumes "applyBlocks path (blocks @ [block]) content n = Inr (final, m)"
  shows "\<exists>working k. applyBlocks path blocks content n = Inr (working, k)
           \<and> blockFound working block \<and> final = blockStep working block"
proof (cases "applyBlocks path blocks content n")
  case (Inl e)
  with assms show ?thesis by (simp add: applyBlocks_append)
next
  case (Inr res)
  obtain working k where res: "res = (working, k)" by (cases res)
  with Inr assms have last: "applyBlocks path [block] working k = Inr (final, m)"
    by (simp add: applyBlocks_append)
  show ?thesis
  proof (cases "blockFound working block")
    case True
    with last Inr res show ?thesis by (simp add: applyBlocks_found)
  next
    case False
    with last show ?thesis by (simp add: applyBlocks_not_found)
  qed
qed

lemma applyBlocks_lf:
  "applyBlocks path blocks content n = Inr (final, m) \<Longrightarrow> blocks \<noteq> [] \<Longrightarrow>
   \<not> usesCrlf content \<Longrightarrow> lfOnly final"
proof (induction blocks arbitrary: content n)
  case Nil
  then show ?case by simp
next
  case (Cons b bs)
  show ?case
  proof (cases "blockFound content b")
    case False
    with Cons.prems(1) show ?thesis by (simp add: applyBlocks_not_found)
  next
    case True
    let ?c = "blockStep content b"
    from True Cons.prems(1) have rest:
      "applyBlocks path bs ?c (if ?c \<noteq> content then n + 1 else n) = Inr (final, m)"
      by (simp add: applyBlocks_found)
    from Cons.prems(3) blockStep_style [of content b] have lf: "lfOnly ?c" by simp
    show ?thesis
    proof (cases bs)
      case Nil
      with rest lf show ?thesis by simp
    next
      case (Cons b' bs')
      then have "bs \<noteq> []" by simp
      from Cons.IH [OF rest this lfOnly_not_usesCrlf [OF lf]] show ?thesis .
    qed
  qed
qed

lemma crlfOnly_pad: "x \<noteq> CR \<Longrightarrow> x \<noteq> LF \<Longrightarrow> crlfOnly (replicate k x @ c) = crlfOnly c"
  by (induction k) auto

lemma usesCrlf_pad_replicate:
  "x \<noteq> CR \<Longrightarrow> x \<noteq> LF \<Longrightarrow> usesCrlf (replicate k x @ c) = usesCrlf c"
  by (induction k) (auto simp: usesCrlf_pad)

lemma replaceLf_pad_replicate:
  "x \<noteq> LF \<Longrightarrow> replaceLf (replicate k x @ c) = replicate k x @ replaceLf c"
  by (induction k) auto

lemma parse_chain:
  "parseSearchReplaceBlocks
     ''------- SEARCH\<newline>a\<newline>b\<newline>=======\<newline>c\<newline>+++++++ REPLACE\<newline>------- SEARCH\<newline>c\<newline>=======\<newline>d\<newline>e\<newline>+++++++ REPLACE''
   = [\<lparr>searchText = ''a\<newline>b'', replaceText = ''c''\<rparr>,
      \<lparr>searchText = ''c'', replaceText = ''d\<newline>e''\<rparr>]"
  by code_simp

text \<open>
  Claim C1, as stated, fails. The document below is detected CRLF. The first block
  removes its only line break, so the style detected before the second block is LF, and
  the line break that the second block inserts stays a bare line feed: the final output
  does not follow the style detected from the original input.
\<close>

theorem C1_style_changes_during_run:
  "usesCrlf (replicate 3000 (CHR ''x'') @ [CHR ''a'', CR, LF, CHR ''b''])
   \<and> patchResult
       (quietWorld [''note.md'' \<mapsto>
          TFile (replicate 3000 (CHR ''x'') @ [CHR ''a'', CR, LF, CHR ''b''])])
       ''note.md''
       ''------- SEARCH\<newline>a\<newline>b\<newline>=======\<newline>c\<newline>+++++++ REPLACE\<newline>------- SEARCH\<newline>c\<newline>=======\<newline>d\<newline>e\<newline>+++++++ REPLACE''
     = Inr (replicate 3000 (CHR ''x'') @ [CHR ''d'', LF, CHR ''e''], 2)
   \<and> \<not> crlfOnly (replicate 3000 (CHR ''x'') @ [CHR ''d'', LF, CHR ''e''])
   \<and> restoreLineEndings
        (usesCrlf (replicate 3000 (CHR ''x'') @ [CHR ''a'', CR, LF, CHR ''b'']))
        (replicate 3000 (CHR ''x'') @ [CHR ''d'', LF, CHR ''e''])
       \<noteq> replicate 3000 (CHR ''x'') @ [CHR ''d'', LF, CHR ''e'']"
proof -
  let ?pad = "replicate 3000 (CHR ''x'')"
  let ?doc = "?pad @ [CHR ''a'', CR, LF, CHR ''b'']"
  let ?blocks = "[\<lparr>searchText = ''a\<newline>b'', replaceText = ''c''\<rparr>,
      \<lparr>searchText = ''c'', replaceText = ''d\<newline>e''\<rparr>]"
  have u: "usesCrlf ?doc"
    by (simp add: usesCrlf_pad_replicate) (simp add: usesCrlf_def crlfCount_def lfCount_def)
  have core: "applyBlocks ''note.md'' ?blocks [CHR ''a'', CR, LF, CHR ''b''] 0
      = Inr ([CHR ''d'', LF, CHR ''e''], 2)"
    by code_simp
  have "list_all (inert (CHR ''x'')) ?blocks" by code_simp
  from applyBlocks_pad [OF this] core
  have padded: "applyBlocks ''note.md'' ?blocks ?doc 0 = Inr (?pad @ [CHR ''d'', LF, CHR ''e''], 2)"
    by simp
  have p: "patchResult (quietWorld [''note.md'' \<mapsto> TFile ?doc]) ''note.md''
       ''------- SEARCH\<newline>a\<newline>b\<newline>=======\<newline>c\<newline>+++++++ REPLACE\<newline>------- SEARCH\<newline>c\<newline>=======\<newline>d\<newline>e\<newline>+++++++ REPLACE''
     = Inr (?pad @ [CHR ''d'', LF, CHR ''e''], 2)"
    by (rule patchResult_large [OF _ _ parse_chain _ padded])
      (simp_all add: quietWorld_def MIN_FILE_SIZE_FOR_REPLACE_def)
  have n: "\<not> crlfOnly (?pad @ [CHR ''d'', LF, CHR ''e''])"
    by (simp add: crlfOnly_pad)
  have "restoreLineEndings True (?pad @ [CHR ''d'', LF, CHR ''e''])
        = ?pad @ [CHR ''d'', CR, LF, CHR ''e'']"
    by (simp add: restoreLineEndings_def replaceLf_pad_replicate)
  with u have r: "restoreLineEndings (usesCrlf ?doc) (?pad @ [CHR ''d'', LF, CHR ''e''])
       \<noteq> ?pad @ [CHR ''d'', LF, CHR ''e'']"
    by simp
  from u p n r show ?thesis by simp
qed

text \<open>
  Claim C1, amended. For every apply of a sequence of parsed blocks to a document, the
  line-ending style is detected anew at each block, from the working content as it
  stands at that block's turn (the original document at the first block), and the
  conversion back to that style happens after each block. So the final output is
  uniform in the style detected from the working content before the last block: CRLF
  throughout when that content is detected CRLF, free of carriage returns otherwise.
  When the original document is detected LF, the final output is free of carriage
  returns, that is, it follows the original style.
\<close>

theorem C1_style_per_block:
  "(applyBlocks path (blocks @ [block]) content n = Inr (final, m) \<longrightarrow>
      (\<exists>working k. applyBlocks path blocks content n = Inr (working, k)
         \<and> final = blockStep working block
         \<and> (if usesCrlf working then crlfOnly final else lfOnly final)))
   \<and> (blocks \<noteq> [] \<and> \<not> usesCrlf content
        \<and> applyBlocks path blocks content n = Inr (final, m) \<longrightarrow> lfOnly final)"
proof (intro conjI impI)
  assume "applyBlocks path (blocks @ [block]) content n = Inr (final, m)"
  from applyBlocks_snoc [OF this] obtain working k where
    w: "applyBlocks path blocks content n = Inr (working, k)"
    and f: "final = blockStep working block" by blast
  from f blockStep_style [of working block]
  have "if usesCrlf working then crlfOnly final else lfOnly final" by simp
  with w f show "\<exists>working k. applyBlocks path blocks content n = Inr (working, k)
         \<and> final = blockStep working block
         \<and> (if usesCrlf working then crlfOnly final else lfOnly final)" by blast
next
  assume "blocks \<noteq> [] \<and> \<not> usesCrlf content
        \<and> applyBlocks path blocks content n = Inr (final, m)"
  then show "lfOnly final" using applyBlocks_lf by blast
qed

theorem C1_style_per_block_witness:
  "applyBlocks ''note.md''
     ([\<lparr>searchText = ''a\<newline>b'', replaceText = ''c''\<rparr>]
      @ [\<lparr>searchText = ''c'', replaceText = ''d\<newline>e''\<rparr>])
     [CHR ''a'', CR, LF, CHR ''b''] 0 = Inr ([CHR ''d'', LF, CHR ''e''], 2)
   \<and> applyBlocks ''note.md'' [\<lparr>searchText = ''a\<newline>b'', replaceText = ''c''\<rparr>]
       [CHR ''a'', CR, LF, CHR ''b''] 0 = Inr (''c'', 1)
   \<and> \<not> usesCrlf ''c''
   \<and> lfOnly [CHR ''d'', LF, CHR ''e'']
   \<and> [\<lparr>searchText = ''a'', replaceText = ''b\<newline>c''\<rparr>] \<noteq> []
   \<and> \<not> usesCrlf [CHR ''a'', LF, CHR ''z'']
   \<and> applyBlocks ''note.md'' [\<lparr>searchText = ''a'', replaceText = ''b\<newline>c''\<rparr>]
       [CHR ''a'', LF, CHR ''z''] 0 = Inr ([CHR ''b'', LF, CHR ''c'', LF, CHR ''z''], 1)
   \<and> lfOnly [CHR ''b'', LF, CHR ''c'', LF, CHR ''z'']"
proof -
  have a: "applyBlocks ''note.md''
     ([\<lparr>searchText = ''a\<newline>b'', replaceText = ''c''\<rparr>]
      @ [\<lparr>searchText = ''c'', replaceText = ''d\<newline>e''\<rparr>])
     [CHR ''a'', CR, LF, CHR ''b''] 0 = Inr ([CHR ''d'', LF, CHR ''e''], 2)"
    by code_simp
  have b: "applyBlocks ''note.md'' [\<lparr>searchText = ''a\<newline>b'', replaceText = ''c''\<rparr>]
       [CHR ''a'', CR, LF, CHR ''b''] 0 = Inr (''c'', 1)"
    by code_simp
  have c: "\<not> usesCrlf ''c''" by code_simp
  have d: "\<not> usesCrlf [CHR ''a'', LF, CHR ''z'']" by code_simp
  have e: "applyBlocks ''note.md'' [\<lparr>searchText = ''a'', replaceText = ''b\<newline>c''\<rparr>]
       [CHR ''a'', LF, CHR ''z''] 0 = Inr ([CHR ''b'', LF, CHR ''c'', LF, CHR ''z''], 1)"
    by code_simp
  note t1 = C1_style_per_block [of "''note.md''"
      "[\<lparr>searchText = ''a\<newline>b'', replaceText = ''c''\<rparr>]"
      "\<lparr>searchText = ''c'', replaceText = ''d\<newline>e''\<rparr>"
      "[CHR ''a'', CR, LF, CHR ''b'']" 0 "[CHR ''d'', LF, CHR ''e'']" 2]
  note t2 = C1_style_per_block [of "''note.md''"
      "[\<lparr>searchText = ''a'', replaceText = ''b\<newline>c''\<rparr>]"
      "\<lparr>searchText = ''c'', replaceText = ''d\<newline>e''\<rparr>"
      "[CHR ''a'', LF, CHR ''z'']" 0 "[CHR ''b'', LF, CHR ''c'', LF, CHR ''z'']" 1]
  from t1 a b c have "lfOnly [CHR ''d'', LF, CHR ''e'']" by auto
  moreover from t2 d e have "lfOnly [CHR ''b'', LF, CHR ''c'', LF, CHR ''z'']" by blast
  ultimately show ?thesis using a b c d e by simp
qed

subsection \<open>Blocks with an empty search text\<close>

text \<open>
  The replacement text put before the first character of a document, between every two
  characters and after the last one.
\<close>

definition insertAtEveryBoundary :: "string \<Rightarrow> string \<Rightarrow> string" where
  "insertAtEveryBoundary r doc = r @ concat (map (\<lambda>c. c # r) doc)"

lemma replaceAllFrom_empty:
  "CHR ''$'' \<notin> set r \<Longrightarrow> replaceAllFrom rb c [] r = insertAtEveryBoundary r c"
proof (induction c arbitrary: rb)
  case Nil
  then show ?case
    by (simp add: replaceAllFrom.simps [of _ "[]"] getSubstitution_plain
        insertAtEveryBoundary_def)
next
  case (Cons d ds)
  from Cons.IH [OF Cons.prems, of "d # rb"] Cons.prems show ?case
    by (simp add: replaceAllFrom.simps [of _ "d # ds"] getSubstitution_plain
        insertAtEveryBoundary_def)
qed

lemma normalize_subset: "set (normalizeLineEndings r) \<subseteq> insert LF (set r)"
proof -
  have "set (replaceCrLf r) \<subseteq> set r"
    by (induction r rule: replaceCrLf.induct) auto
  then show ?thesis by (auto simp: normalizeLineEndings_def replaceCr_def)
qed

lemma normalize_no_dollar:
  "CHR ''$'' \<notin> set r \<Longrightarrow> CHR ''$'' \<notin> set (normalizeLineEndings r)"
  using normalize_subset [of r] by auto

lemma includesStr_empty: "includesStr c []"
  by (cases c) auto

lemma normalize_Nil: "normalizeLineEndings [] = []"
  by (simp add: normalizeLineEndings_def replaceCr_def)

lemma parse_empty_search:
  "parseSearchReplaceBlocks ''-------SEARCH=======bar+++++++REPLACE''
   = [\<lparr>searchText = [], replaceText = ''bar''\<rparr>]"
  by code_simp

text \<open>
  Claim C9, as stated, fails on a CRLF document: the replacement is made on the
  LF-normalised content, so the boundary between the carriage return and the line feed
  of a CRLF pair gets no insertion.
\<close>

theorem C9_no_insertion_inside_crlf:
  "replaceWithLineEndingAwareness [CHR ''a'', CR, LF, CHR ''b''] [] ''bar''
     = ''bar'' @ ''a'' @ ''bar'' @ [CR, LF] @ ''bar'' @ ''b'' @ ''bar''
   \<and> insertAtEveryBoundary ''bar'' [CHR ''a'', CR, LF, CHR ''b'']
     = ''bar'' @ ''a'' @ ''bar'' @ [CR] @ ''bar'' @ [LF] @ ''bar'' @ ''b'' @ ''bar''
   \<and> replaceWithLineEndingAwareness [CHR ''a'', CR, LF, CHR ''b''] [] ''bar''
     \<noteq> insertAtEveryBoundary ''bar'' [CHR ''a'', CR, LF, CHR ''b'']"
proof -
  have a: "replaceWithLineEndingAwareness [CHR ''a'', CR, LF, CHR ''b''] [] ''bar''
     = ''bar'' @ ''a'' @ ''bar'' @ [CR, LF] @ ''bar'' @ ''b'' @ ''bar''"
    by code_simp
  have b: "insertAtEveryBoundary ''bar'' [CHR ''a'', CR, LF, CHR ''b'']
     = ''bar'' @ ''a'' @ ''bar'' @ [CR] @ ''bar'' @ [LF] @ ''bar'' @ ''b'' @ ''bar''"
    by (simp add: insertAtEveryBoundary_def)
  from a b show ?thesis by simp
qed

text \<open>
  \<^verbatim>\<open>blockRegex.exec(diff)\<close> from a position of the instruction: the expression is
  tried at the position and then at every later one, up to the end.
\<close>

fun execFrom :: "string \<Rightarrow> (string \<times> string \<times> string) option" where
  "execFrom [] = blockRegex []"
| "execFrom (c # cs) =
     (case blockRegex (c # cs) of Some found \<Rightarrow> Some found | None \<Rightarrow> execFrom cs)"

lemma execFrom_consumes:
  "execFrom s = Some (m1, m2, rest) \<Longrightarrow> length rest < length s"
proof (induction s)
  case Nil
  then show ?case using blockRegex_consumes [of "[]" m1 m2 rest] by simp
next
  case (Cons c cs)
  show ?case
  proof (cases "blockRegex (c # cs)")
    case None
    with Cons show ?thesis by simp
  next
    case (Some found)
    with Cons.prems have "blockRegex (c # cs) = Some (m1, m2, rest)" by simp
    then show ?thesis by (rule blockRegex_consumes)
  qed
qed

text \<open>
  The matches the loop of the parser goes through, in order: the two captured texts of
  each, before they are trimmed.
\<close>

function rawMatches :: "string \<Rightarrow> (string \<times> string) list" where
  "rawMatches s =
     (case execFrom s of
        None \<Rightarrow> []
      | Some (match1, match2, rest) \<Rightarrow> (match1, match2) # rawMatches rest)"
  by pat_completeness auto
termination
  by (relation "measure length") (auto simp: execFrom_consumes)

declare rawMatches.simps [simp del]

lemma parseFrom_exec:
  "parseFrom s =
     (case execFrom s of
        None \<Rightarrow> []
      | Some (match1, match2, rest) \<Rightarrow>
          \<lparr>searchText = trim match1, replaceText = trim match2\<rparr> # parseFrom rest)"
proof (induction s)
  case Nil
  show ?case by (subst parseFrom.simps) (simp split: option.splits)
next
  case (Cons c cs)
  show ?case
  proof (cases "blockRegex (c # cs)")
    case None
    then have "parseFrom (c # cs) = parseFrom cs" by (subst parseFrom.simps) simp
    with None Cons.IH show ?thesis by simp
  next
    case (Some found)
    then show ?thesis by (subst parseFrom.simps) simp
  qed
qed

lemma parseFrom_rawMatches:
  "parseFrom s =
     map (\<lambda>(match1, match2). \<lparr>searchText = trim match1, replaceText = trim match2\<rparr>)
       (rawMatches s)"
proof (induction s rule: rawMatches.induct)
  case (1 s)
  show ?case
  proof (cases "execFrom s")
    case None
    then show ?thesis by (simp add: parseFrom_exec [of s] rawMatches.simps [of s])
  next
    case (Some found)
    obtain m1 m2 rest where f: "found = (m1, m2, rest)" by (cases found)
    from "1.IH" [OF Some [unfolded f] refl refl] Some f show ?thesis
      by (simp add: parseFrom_exec [of s] rawMatches.simps [of s])
  qed
qed

text \<open>
  Claim C9, amended. Wherever in an instruction the loop of the parser meets a match
  whose captured search text is empty after trimming (for example in
  \<open>-------SEARCH=======bar+++++++REPLACE\<close>, also behind other text or other blocks),
  the parser returns for it a block with the empty string as \<open>searchText\<close>. The loop
  over the blocks finds such a block in every working content instead of rejecting it,
  and its replacement, for a replacement text without dollar sign, inserts the
  LF-normalised replacement text at every character boundary of the LF-normalised
  document, before the first and after the last character included, and then converts
  the result to the detected style. For a document and a replacement text without
  carriage return that is every character boundary of the document.
\<close>

theorem C9_empty_search_inserts:
  "parseSearchReplaceBlocks ''-------SEARCH=======bar+++++++REPLACE''
     = [\<lparr>searchText = [], replaceText = ''bar''\<rparr>]
   \<and> parseSearchReplaceBlocks diff
     = map (\<lambda>(match1, match2). \<lparr>searchText = trim match1, replaceText = trim match2\<rparr>)
         (rawMatches diff)
   \<and> ((match1, match2) \<in> set (rawMatches diff) \<and> trim match1 = [] \<longrightarrow>
        \<lparr>searchText = [], replaceText = trim match2\<rparr> \<in> set (parseSearchReplaceBlocks diff))
   \<and> (execFrom diff = Some (match1, match2, rest) \<and> trim match1 = [] \<longrightarrow>
        parseSearchReplaceBlocks diff
        = \<lparr>searchText = [], replaceText = trim match2\<rparr> # parseSearchReplaceBlocks rest)
   \<and> (searchText block = [] \<longrightarrow>
        blockFound content block
        \<and> blockStep content block
          = replaceWithLineEndingAwareness content [] (replaceText block)
        \<and> applyBlocks path (block # later) content n
          = applyBlocks path later (blockStep content block)
              (if blockStep content block \<noteq> content then n + 1 else n))
   \<and> (CHR ''$'' \<notin> set r \<longrightarrow>
        replaceWithLineEndingAwareness content [] r
        = restoreLineEndings (usesCrlf content)
            (insertAtEveryBoundary (normalizeLineEndings r) (normalizeLineEndings content)))
   \<and> (CHR ''$'' \<notin> set r \<and> CR \<notin> set r \<and> CR \<notin> set content \<longrightarrow>
        replaceWithLineEndingAwareness content [] r = insertAtEveryBoundary r content)"
proof (intro conjI impI)
  show "parseSearchReplaceBlocks ''-------SEARCH=======bar+++++++REPLACE''
     = [\<lparr>searchText = [], replaceText = ''bar''\<rparr>]"
    by (rule parse_empty_search)
next
  show m: "parseSearchReplaceBlocks diff
     = map (\<lambda>(match1, match2). \<lparr>searchText = trim match1, replaceText = trim match2\<rparr>)
         (rawMatches diff)"
    by (simp add: parseSearchReplaceBlocks_def parseFrom_rawMatches)
  assume "(match1, match2) \<in> set (rawMatches diff) \<and> trim match1 = []"
  then have "(\<lambda>(match1, match2). \<lparr>searchText = trim match1, replaceText = trim match2\<rparr>)
      (match1, match2) \<in> set (parseSearchReplaceBlocks diff)"
    and "trim match1 = []"
    unfolding m by (simp_all only: set_map imageI)
  then show "\<lparr>searchText = [], replaceText = trim match2\<rparr>
      \<in> set (parseSearchReplaceBlocks diff)"
    by simp
next
  assume "execFrom diff = Some (match1, match2, rest) \<and> trim match1 = []"
  then show "parseSearchReplaceBlocks diff
        = \<lparr>searchText = [], replaceText = trim match2\<rparr> # parseSearchReplaceBlocks rest"
    by (simp add: parseSearchReplaceBlocks_def parseFrom_exec [of diff])
next
  assume e: "searchText block = []"
  then show f: "blockFound content block"
    by (simp add: blockFound_def normalize_Nil includesStr_empty)
  from e show "blockStep content block
          = replaceWithLineEndingAwareness content [] (replaceText block)"
    by (simp add: blockStep_def normalize_Nil includesStr_empty)
  from f show "applyBlocks path (block # later) content n
          = applyBlocks path later (blockStep content block)
              (if blockStep content block \<noteq> content then n + 1 else n)"
    by (rule applyBlocks_found)
next
  assume d: "CHR ''$'' \<notin> set r"
  then show "replaceWithLineEndingAwareness content [] r
        = restoreLineEndings (usesCrlf content)
            (insertAtEveryBoundary (normalizeLineEndings r) (normalizeLineEndings content))"
    by (simp add: replaceWithLineEndingAwareness_def replaceAll_def normalize_Nil
        replaceAllFrom_empty normalize_no_dollar)
next
  assume a: "CHR ''$'' \<notin> set r \<and> CR \<notin> set r \<and> CR \<notin> set content"
  then have "\<not> usesCrlf content"
    by (simp add: usesCrlf_def crlfCount_def countCrLf_no_cr)
  with a show "replaceWithLineEndingAwareness content [] r = insertAtEveryBoundary r content"
    by (simp add: replaceWithLineEndingAwareness_def replaceAll_def normalize_Nil
        replaceAllFrom_empty normalize_no_cr restoreLineEndings_def)
qed

theorem C9_empty_search_inserts_witness:
  "rawMatches ''---SEARCHa===b+++REPLACE\<newline>x---SEARCH===c+++REPLACE''
     = [(''a'', ''b''), ([], ''c'')]
   \<and> ([], ''c'') \<in> set (rawMatches ''---SEARCHa===b+++REPLACE\<newline>x---SEARCH===c+++REPLACE'')
   \<and> trim [] = []
   \<and> \<lparr>searchText = [], replaceText = ''c''\<rparr>
       \<in> set (parseSearchReplaceBlocks ''---SEARCHa===b+++REPLACE\<newline>x---SEARCH===c+++REPLACE'')
   \<and> parseSearchReplaceBlocks ''---SEARCHa===b+++REPLACE\<newline>x---SEARCH===c+++REPLACE''
     = [\<lparr>searchText = ''a'', replaceText = ''b''\<rparr>, \<lparr>searchText = [], replaceText = ''c''\<rparr>]
   \<and> blockRegex ''x-------SEARCH=======bar+++++++REPLACE'' = None
   \<and> execFrom ''x-------SEARCH=======bar+++++++REPLACE'' = Some ([], ''bar'', [])
   \<and> parseSearchReplaceBlocks ''x-------SEARCH=======bar+++++++REPLACE''
     = \<lparr>searchText = [], replaceText = trim ''bar''\<rparr> # parseSearchReplaceBlocks []
   \<and> searchText \<lparr>searchText = [], replaceText = ''bar''\<rparr> = []
   \<and> blockFound ''ab'' \<lparr>searchText = [], replaceText = ''bar''\<rparr>
   \<and> applyBlocks ''note.md'' [\<lparr>searchText = [], replaceText = ''bar''\<rparr>] ''ab'' 0
     = Inr (''barabarbbar'', 1)
   \<and> CHR ''$'' \<notin> set ''bar'' \<and> CR \<notin> set ''bar'' \<and> CR \<notin> set ''ab''
   \<and> replaceWithLineEndingAwareness ''ab'' [] ''bar'' = ''barabarbbar''
   \<and> replaceWithLineEndingAwareness [CHR ''a'', CR, LF, CHR ''b''] [] ''bar''
     = restoreLineEndings True (insertAtEveryBoundary ''bar'' [CHR ''a'', LF, CHR ''b''])"
proof -
  let ?two = "''---SEARCHa===b+++REPLACE\<newline>x---SEARCH===c+++REPLACE''"
  let ?one = "''x-------SEARCH=======bar+++++++REPLACE''"
  let ?b = "\<lparr>searchText = [], replaceText = ''bar''\<rparr>"
  have rm: "rawMatches ?two = [(''a'', ''b''), ([], ''c'')]" by code_simp
  have mem: "([], ''c'') \<in> set (rawMatches ?two)" unfolding rm by simp
  have t: "trim [] = []" by code_simp
  have tb: "trim ''a'' = ''a''" "trim ''b'' = ''b''" "trim ''c'' = ''c''" by code_simp+
  have br: "blockRegex ?one = None" by code_simp
  have ex: "execFrom ?one = Some ([], ''bar'', [])" by code_simp
  have s: "searchText ?b = []" by simp
  have d: "CHR ''$'' \<notin> set ''bar''" "CR \<notin> set ''bar''" "CR \<notin> set ''ab''" by simp_all
  have i: "insertAtEveryBoundary ''bar'' ''ab'' = ''barabarbbar''"
    by (simp add: insertAtEveryBoundary_def)
  have u: "usesCrlf [CHR ''a'', CR, LF, CHR ''b'']" by code_simp
  have nb: "normalizeLineEndings ''bar'' = ''bar''" by code_simp
  have nc: "normalizeLineEndings [CHR ''a'', CR, LF, CHR ''b''] = [CHR ''a'', LF, CHR ''b'']"
    by code_simp
  note t2 = C9_empty_search_inserts [where diff = ?two and ?match1.0 = "[]" and ?match2.0 = "''c''"
      and rest = "[]" and block = ?b and content = "''ab''" and path = "''note.md''"
      and later = "[]" and n = 0 and r = "''bar''"]
  note t1 = C9_empty_search_inserts [where diff = ?one and ?match1.0 = "[]" and ?match2.0 = "''bar''"
      and rest = "[]" and block = ?b and content = "[CHR ''a'', CR, LF, CHR ''b'']"
      and path = "''note.md''" and later = "[]" and n = 0 and r = "''bar''"]
  from t2 mem t have inset: "\<lparr>searchText = [], replaceText = trim ''c''\<rparr>
       \<in> set (parseSearchReplaceBlocks ?two)" by blast
  from t2 have "parseSearchReplaceBlocks ?two
     = map (\<lambda>(match1, match2). \<lparr>searchText = trim match1, replaceText = trim match2\<rparr>)
         (rawMatches ?two)" by blast
  then have p2: "parseSearchReplaceBlocks ?two
     = [\<lparr>searchText = ''a'', replaceText = ''b''\<rparr>, \<lparr>searchText = [], replaceText = ''c''\<rparr>]"
    unfolding rm by (simp add: t tb)
  from t1 ex t have p1: "parseSearchReplaceBlocks ?one
     = \<lparr>searchText = [], replaceText = trim ''bar''\<rparr> # parseSearchReplaceBlocks []"
    by blast
  from t2 d have r: "replaceWithLineEndingAwareness ''ab'' [] ''bar'' = ''barabarbbar''"
    unfolding i by blast
  from t2 s have f: "blockFound ''ab'' ?b"
    and st: "blockStep ''ab'' ?b = replaceWithLineEndingAwareness ''ab'' [] (replaceText ?b)"
    and ap: "applyBlocks ''note.md'' [?b] ''ab'' 0
          = applyBlocks ''note.md'' [] (blockStep ''ab'' ?b)
              (if blockStep ''ab'' ?b \<noteq> ''ab'' then 0 + 1 else 0)"
    by blast+
  from st r have st': "blockStep ''ab'' ?b = ''barabarbbar''" by simp
  have a: "applyBlocks ''note.md'' [?b] ''ab'' 0 = Inr (''barabarbbar'', 1)"
    unfolding ap st' by simp
  from t1 d(1) have c: "replaceWithLineEndingAwareness [CHR ''a'', CR, LF, CHR ''b''] [] ''bar''
     = restoreLineEndings True (insertAtEveryBoundary ''bar'' [CHR ''a'', LF, CHR ''b''])"
    unfolding nb nc using u by simp
  from rm mem t inset p2 br ex p1 s f a d r c show ?thesis by (simp add: tb)
qed

subsection \<open>The loop as a sequence of replacements\<close>

text \<open>
  Every block of the list is found at its turn, the working content being the result of
  the replacements before it.
\<close>

fun allFound :: "string \<Rightarrow> block list \<Rightarrow> bool" where
  "allFound content [] = True"
| "allFound content (b # bs) = (blockFound content b \<and> allFound (blockStep content b) bs)"

text \<open>The number of blocks whose replacement changes the working content.\<close>

fun changedSteps :: "string \<Rightarrow> block list \<Rightarrow> nat" where
  "changedSteps content [] = 0"
| "changedSteps content (b # bs) =
     (if blockStep content b \<noteq> content then 1 else 0) + changedSteps (blockStep content b) bs"

text \<open>The pieces of a text joined by a separator.\<close>

fun joinWith :: "string \<Rightarrow> string list \<Rightarrow> string" where
  "joinWith sep [] = []"
| "joinWith sep [u] = u"
| "joinWith sep (u # v # vs) = u @ sep @ joinWith sep (v # vs)"

text \<open>
  A piece is free of a search text when the text does not occur in the piece, also not
  when the piece is followed by the beginning of another occurrence.
\<close>

definition freeOf :: "string \<Rightarrow> string \<Rightarrow> bool" where
  "freeOf s u \<longleftrightarrow> \<not> includesStr (u @ butlast s) s"

lemma applyBlocks_allFound:
  "allFound content blocks \<Longrightarrow>
   applyBlocks path blocks content n
   = Inr (foldl blockStep content blocks, n + changedSteps content blocks)"
proof (induction blocks arbitrary: content n)
  case Nil
  show ?case by simp
next
  case (Cons b bs)
  from Cons.prems have f: "blockFound content b" and r: "allFound (blockStep content b) bs"
    by simp_all
  from Cons.IH [OF r] show ?case
    by (simp add: applyBlocks_found [OF f])
qed

lemma applyBlocks_succeeds_allFound:
  "applyBlocks path blocks content n = Inr res \<Longrightarrow> allFound content blocks"
proof (induction blocks arbitrary: content n)
  case Nil
  show ?case by simp
next
  case (Cons b bs)
  show ?case
  proof (cases "blockFound content b")
    case True
    with Cons.prems Cons.IH show ?thesis by (simp add: applyBlocks_found)
  next
    case False
    with Cons.prems show ?thesis by (simp add: applyBlocks_not_found)
  qed
qed

lemma changedSteps_le: "changedSteps content blocks \<le> length blocks"
proof (induction blocks arbitrary: content)
  case Nil
  show ?case by simp
next
  case (Cons b bs)
  from Cons.IH [of "blockStep content b"] show ?case
    by (cases "blockStep content b = content") auto
qed

lemma includesStr_sublist: "includesStr c p = sublist p c"
proof (induction c)
  case Nil
  show ?case by (cases p) auto
next
  case (Cons d ds)
  then show ?case by (simp add: sublist_Cons_right)
qed

lemma replaceAllFrom_no_match:
  "\<not> includesStr u s \<Longrightarrow> replaceAllFrom rb u s r = u"
proof (induction u arbitrary: rb)
  case Nil
  then show ?case by (simp add: replaceAllFrom.simps [of _ "[]"])
next
  case (Cons c u)
  then show ?case by (simp add: replaceAllFrom.simps [of _ "c # u"])
qed

lemma freeOf_no_prefix:
  assumes "freeOf s (c # u)"
  shows "\<not> prefix s (c # u @ s @ rest)"
proof
  assume p: "prefix s (c # u @ s @ rest)"
  have q: "prefix ((c # u) @ butlast s) (c # u @ s @ rest)"
    by (simp add: prefixeq_butlast)
  have "length s \<le> length ((c # u) @ butlast s)" by simp
  from prefix_length_prefix [OF p q this] have "sublist s ((c # u) @ butlast s)"
    by (rule prefix_imp_sublist)
  with assms show False by (simp add: freeOf_def includesStr_sublist)
qed

lemma freeOf_tail: "freeOf s (c # u) \<Longrightarrow> freeOf s u"
  by (simp add: freeOf_def)

lemma freeOf_no_occurrence: "freeOf s u \<Longrightarrow> \<not> includesStr u s"
  by (auto simp: freeOf_def includesStr_sublist sublist_append)

lemma replaceAllFrom_piece:
  "s \<noteq> [] \<Longrightarrow> CHR ''$'' \<notin> set r \<Longrightarrow> freeOf s u \<Longrightarrow>
   replaceAllFrom rb (u @ s @ rest) s r = u @ r @ replaceAllFrom [] rest s r"
proof (induction u arbitrary: rb)
  case Nil
  then show ?case
    using replaceAllFrom_before [of r "rev s @ rb" rest s "[]"]
    by (simp add: replaceAllFrom.simps [of _ "s @ rest"] getSubstitution_plain)
next
  case (Cons c u)
  from freeOf_no_prefix [OF Cons.prems(3)] have "\<not> prefix s (c # u @ s @ rest)" .
  then have "replaceAllFrom rb ((c # u) @ s @ rest) s r
             = c # replaceAllFrom (c # rb) (u @ s @ rest) s r"
    by (simp add: replaceAllFrom.simps [of _ "c # u @ s @ rest"])
  with Cons.IH [OF Cons.prems(1,2) freeOf_tail [OF Cons.prems(3)]] show ?case by simp
qed

lemma replaceAll_joinWith:
  "s \<noteq> [] \<Longrightarrow> CHR ''$'' \<notin> set r \<Longrightarrow> list_all (freeOf s) us \<Longrightarrow>
   replaceAll (joinWith s us) s r = joinWith r us"
proof (induction s us rule: joinWith.induct)
  case (1 sep)
  then show ?case by (simp add: replaceAll_def replaceAllFrom.simps [of _ "[]"])
next
  case (2 sep u)
  then show ?case by (simp add: replaceAll_def replaceAllFrom_no_match freeOf_no_occurrence)
next
  case (3 sep u v vs)
  then show ?case by (simp add: replaceAll_def replaceAllFrom_piece)
qed

lemma includesStr_joinWith: "includesStr (joinWith s (u # v # vs)) s"
  by (simp add: includesStr_sublist sublist_append)

lemma includesStr_pad_replicate:
  "p \<noteq> [] \<Longrightarrow> x \<notin> set p \<Longrightarrow> includesStr (replicate k x @ c) p = includesStr c p"
  by (induction k) (simp_all add: includesStr_pad del: includesStr.simps)

lemma parse_identity_block:
  "parseSearchReplaceBlocks
     ''------- SEARCH\<newline>foo\<newline>=======\<newline>foo\<newline>+++++++ REPLACE\<newline>------- SEARCH\<newline>cat\<newline>=======\<newline>dog\<newline>+++++++ REPLACE''
   = [\<lparr>searchText = ''foo'', replaceText = ''foo''\<rparr>,
      \<lparr>searchText = ''cat'', replaceText = ''dog''\<rparr>]"
  by code_simp

text \<open>
  Claim C2, as stated, fails. The two search texts below occur in the document, apart
  from each other, and neither is part of the other; both blocks are applied, but the
  first replaces \<open>foo\<close> by \<open>foo\<close>, leaves the working content as it is and is not
  counted: \<open>blocksApplied\<close> is 1 for 2 blocks.
\<close>

theorem C2_unchanged_block_not_counted:
  "length (parseSearchReplaceBlocks
     ''------- SEARCH\<newline>foo\<newline>=======\<newline>foo\<newline>+++++++ REPLACE\<newline>------- SEARCH\<newline>cat\<newline>=======\<newline>dog\<newline>+++++++ REPLACE'')
     = 2
   \<and> includesStr (replicate 3000 (CHR ''x'') @ ''foo cat'') ''foo''
   \<and> includesStr (replicate 3000 (CHR ''x'') @ ''foo cat'') ''cat''
   \<and> \<not> includesStr ''foo'' ''cat'' \<and> \<not> includesStr ''cat'' ''foo''
   \<and> patchResult (quietWorld [''note.md'' \<mapsto> TFile (replicate 3000 (CHR ''x'') @ ''foo cat'')])
       ''note.md''
       ''------- SEARCH\<newline>foo\<newline>=======\<newline>foo\<newline>+++++++ REPLACE\<newline>------- SEARCH\<newline>cat\<newline>=======\<newline>dog\<newline>+++++++ REPLACE''
     = Inr (replicate 3000 (CHR ''x'') @ ''foo dog'', 1)"
proof -
  let ?pad = "replicate 3000 (CHR ''x'')"
  let ?blocks = "[\<lparr>searchText = ''foo'', replaceText = ''foo''\<rparr>,
      \<lparr>searchText = ''cat'', replaceText = ''dog''\<rparr>]"
  have i1: "includesStr (?pad @ ''foo cat'') ''foo''"
    by (subst includesStr_pad_replicate) simp_all
  have i2: "includesStr (?pad @ ''foo cat'') ''cat''"
    by (subst includesStr_pad_replicate) simp_all
  have core: "applyBlocks ''note.md'' ?blocks ''foo cat'' 0 = Inr (''foo dog'', 1)"
    by code_simp
  have "list_all (inert (CHR ''x'')) ?blocks" by code_simp
  from applyBlocks_pad [OF this] core
  have padded: "applyBlocks ''note.md'' ?blocks (?pad @ ''foo cat'') 0
      = Inr (?pad @ ''foo dog'', 1)"
    by simp
  have p: "patchResult (quietWorld [''note.md'' \<mapsto> TFile (?pad @ ''foo cat'')]) ''note.md''
       ''------- SEARCH\<newline>foo\<newline>=======\<newline>foo\<newline>+++++++ REPLACE\<newline>------- SEARCH\<newline>cat\<newline>=======\<newline>dog\<newline>+++++++ REPLACE''
     = Inr (?pad @ ''foo dog'', 1)"
    by (rule patchResult_large [OF _ _ parse_identity_block _ padded])
      (simp_all add: quietWorld_def MIN_FILE_SIZE_FOR_REPLACE_def)
  from i1 i2 p show ?thesis by (simp add: parse_identity_block)
qed

text \<open>
  That every search text occurs in the original document, apart from the others, does
  not make every block found at its turn either: below, the replacement of the first
  block completes an occurrence of the second search text, whose replacement takes away
  the only occurrence of the third.
\<close>

lemma later_block_lost:
  "includesStr ''a-cd c-'' ''a'' \<and> includesStr ''a-cd c-'' ''c-''
   \<and> includesStr ''a-cd c-'' ''-cd''
   \<and> applyBlocks ''note.md''
       [\<lparr>searchText = ''a'', replaceText = ''c''\<rparr>,
        \<lparr>searchText = ''c-'', replaceText = ''Z''\<rparr>,
        \<lparr>searchText = ''-cd'', replaceText = ''Y''\<rparr>] ''a-cd c-'' 0
     = Inl (''Search text not found in file note.md : '' @ [CHR 0x22] @ ''-cd''
            @ [CHR 0x22] @ ''.'')"
  by code_simp

subsection \<open>Blocks whose replacement changes the content\<close>

text \<open>
  A block is effective when its search text has no trailing white space (the parser
  trims it), its replacement text has no dollar sign, and the two texts differ after
  normalisation.
\<close>

definition effective :: "block \<Rightarrow> bool" where
  "effective b \<longleftrightarrow>
     trimEnd (searchText b) = searchText b
     \<and> CHR ''$'' \<notin> set (replaceText b)
     \<and> normalizeLineEndings (replaceText b) \<noteq> normalizeLineEndings (searchText b)"

lemma trimEnd_id: "trimEnd s = s \<longleftrightarrow> s = [] \<or> \<not> isWhitespace (last s)"
proof (cases s rule: rev_cases)
  case Nil
  then show ?thesis by (simp add: trimEnd_def)
next
  case (snoc ys y)
  show ?thesis
  proof (cases "isWhitespace y")
    case True
    have "length (trimEnd s) \<le> length ys"
      using length_dropWhile_le [of isWhitespace "rev ys"] snoc True
      by (simp add: trimEnd_def)
    with snoc True show ?thesis by auto
  next
    case False
    with snoc show ?thesis by (simp add: trimEnd_def)
  qed
qed

lemma replaceCrLf_last:
  "s \<noteq> [] \<Longrightarrow> last s \<noteq> LF \<Longrightarrow> replaceCrLf s \<noteq> [] \<and> last (replaceCrLf s) = last s"
proof (induction s rule: replaceCrLf.induct)
  case (1 c d cs)
  show ?case
  proof (cases "c = CR \<and> d = LF")
    case True
    with "1.prems" have "cs \<noteq> []" by auto
    with True "1.prems" "1.IH"(1) show ?thesis by simp
  next
    case False
    with "1.prems" "1.IH"(2) show ?thesis by auto
  qed
qed simp_all

lemma normalize_last:
  assumes "s \<noteq> []" "\<not> isWhitespace (last s)"
  shows "normalizeLineEndings s \<noteq> [] \<and> last (normalizeLineEndings s) = last s"
proof -
  from assms(2) have l: "last s \<noteq> LF" "last s \<noteq> CR" by (auto simp: isWhitespace_def)
  from replaceCrLf_last [OF assms(1) l(1)] l(2) show ?thesis
    by (simp add: normalizeLineEndings_def replaceCr_def last_map)
qed

lemma trimEnd_normalize:
  assumes "trimEnd s = s"
  shows "trimEnd (normalizeLineEndings s) = normalizeLineEndings s"
proof (cases "s = []")
  case True
  then show ?thesis by (simp add: normalize_Nil trimEnd_def)
next
  case False
  with assms have w: "\<not> isWhitespace (last s)" by (simp add: trimEnd_id)
  from normalize_last [OF False w] w
  have "\<not> isWhitespace (last (normalizeLineEndings s))" by simp
  then show ?thesis by (simp add: trimEnd_id)
qed

lemma replaceAllFrom_length_le:
  "CHR ''$'' \<notin> set r \<Longrightarrow> length r \<le> length s \<Longrightarrow>
   length (replaceAllFrom rb c s r) \<le> length c"
proof (induction "length c" arbitrary: rb c rule: less_induct)
  case less
  show ?case
  proof (cases c)
    case Nil
    with less.prems show ?thesis
      by (auto simp: replaceAllFrom.simps [of _ "[]"] getSubstitution_plain)
  next
    case (Cons d ds)
    have a: "length (replaceAllFrom (d # rb) ds s r) \<le> length ds"
      using less.hyps [of ds] less.prems Cons by simp
    show ?thesis
    proof (cases "prefix s c \<and> s \<noteq> []")
      case True
      then have "length (drop (length s) c) < length c" using Cons by simp
      from less.hyps [OF this less.prems]
      have "length (replaceAllFrom (rev s @ rb) (drop (length s) c) s r)
            \<le> length (drop (length s) c)" .
      moreover from True have "length s \<le> length c" by (simp add: prefix_length_le)
      ultimately show ?thesis using True less.prems
        by (simp add: replaceAllFrom.simps [of _ c] getSubstitution_plain)
    next
      case False
      with a Cons less.prems show ?thesis
        by (auto simp: replaceAllFrom.simps [of _ "d # ds"] getSubstitution_plain)
    qed
  qed
qed

lemma replaceAllFrom_length_ge:
  "CHR ''$'' \<notin> set r \<Longrightarrow> length s \<le> length r \<Longrightarrow>
   length c \<le> length (replaceAllFrom rb c s r)"
proof (induction "length c" arbitrary: rb c rule: less_induct)
  case less
  show ?case
  proof (cases c)
    case Nil
    then show ?thesis by simp
  next
    case (Cons d ds)
    have a: "length ds \<le> length (replaceAllFrom (d # rb) ds s r)"
      using less.hyps [of ds] less.prems Cons by simp
    show ?thesis
    proof (cases "prefix s c \<and> s \<noteq> []")
      case True
      then have "length (drop (length s) c) < length c" using Cons by simp
      from less.hyps [OF this less.prems]
      have "length (drop (length s) c)
            \<le> length (replaceAllFrom (rev s @ rb) (drop (length s) c) s r)" .
      with True less.prems show ?thesis
        by (simp add: replaceAllFrom.simps [of _ c] getSubstitution_plain)
    next
      case False
      with a Cons less.prems show ?thesis
        by (auto simp: replaceAllFrom.simps [of _ "d # ds"] getSubstitution_plain)
    qed
  qed
qed

lemma insertAtEveryBoundary_length:
  "length (insertAtEveryBoundary r c) = length r + length c * Suc (length r)"
  by (induction c) (simp_all add: insertAtEveryBoundary_def)

lemma replaceAllFrom_changes:
  "CHR ''$'' \<notin> set r \<Longrightarrow> r \<noteq> s \<Longrightarrow> includesStr c s \<Longrightarrow> replaceAllFrom rb c s r \<noteq> c"
proof (induction "length c" arbitrary: rb c rule: less_induct)
  case less
  note d = less.prems(1)
  show ?case
  proof (cases "s = []")
    case True
    with less.prems(2) have "r \<noteq> []" by simp
    then have "length c < length (replaceAllFrom rb c [] r)"
      using d by (simp add: replaceAllFrom_empty insertAtEveryBoundary_length)
    with True show ?thesis by auto
  next
    case False
    show ?thesis
    proof (cases c)
      case Nil
      with False less.prems(3) show ?thesis by simp
    next
      case (Cons e es)
      show ?thesis
      proof (cases "prefix s c")
        case True
        let ?rest = "drop (length s) c"
        let ?R = "replaceAllFrom (rev s @ rb) ?rest s r"
        from True have c: "c = s @ ?rest" by (auto simp: prefix_def)
        from True False have res: "replaceAllFrom rb c s r = r @ ?R"
          using d by (simp add: replaceAllFrom.simps [of _ c] getSubstitution_plain)
        show ?thesis
        proof
          assume "replaceAllFrom rb c s r = c"
          with res c have eq: "r @ ?R = s @ ?rest" by simp
          consider "length r = length s" | "length r < length s" | "length s < length r"
            by linarith
          then show False
          proof cases
            case 1
            with eq less.prems(2) show False by simp
          next
            case 2
            then have "length ?R \<le> length ?rest"
              using replaceAllFrom_length_le [OF d, of s "rev s @ rb" ?rest] by simp
            with 2 have "length (r @ ?R) < length (s @ ?rest)" by simp
            with eq show False by simp
          next
            case 3
            then have "length ?rest \<le> length ?R"
              using replaceAllFrom_length_ge [OF d, of s ?rest "rev s @ rb"] by simp
            with 3 have "length (s @ ?rest) < length (r @ ?R)" by simp
            with eq show False by simp
          qed
        qed
      next
        case np: False
        with Cons less.prems(3) have "includesStr es s" by simp
        from less.hyps [OF _ d less.prems(2) this, of "e # rb"] Cons
        have "replaceAllFrom (e # rb) es s r \<noteq> es" by simp
        with np Cons show ?thesis
          by (simp add: replaceAllFrom.simps [of _ "e # es"])
      qed
    qed
  qed
qed

lemma normalize_replaceLf: "CR \<notin> set t \<Longrightarrow> normalizeLineEndings (replaceLf t) = t"
proof (induction t)
  case Nil
  show ?case by (simp add: normalize_Nil)
next
  case (Cons c t)
  then have IH: "replaceCr (replaceCrLf (replaceLf t)) = t"
    by (simp add: normalizeLineEndings_def)
  from Cons.prems have "c \<noteq> CR" by auto
  with IH show ?case
    by (cases "replaceLf t") (auto simp: normalizeLineEndings_def replaceCr_def)
qed

lemma normalize_restore:
  "CR \<notin> set t \<Longrightarrow> normalizeLineEndings (restoreLineEndings u t) = t"
  by (simp add: restoreLineEndings_def normalize_replaceLf normalize_no_cr)

lemma rwlea_changes:
  assumes "CHR ''$'' \<notin> set r" "normalizeLineEndings r \<noteq> normalizeLineEndings s"
    and "includesStr (normalizeLineEndings c) (normalizeLineEndings s)"
  shows "replaceWithLineEndingAwareness c s r \<noteq> c"
proof
  let ?R = "replaceAll (normalizeLineEndings c) (normalizeLineEndings s) (normalizeLineEndings r)"
  assume "replaceWithLineEndingAwareness c s r = c"
  then have "restoreLineEndings (usesCrlf c) ?R = c"
    by (simp add: replaceWithLineEndingAwareness_def)
  then have "normalizeLineEndings (restoreLineEndings (usesCrlf c) ?R) = normalizeLineEndings c"
    by simp
  then have "?R = normalizeLineEndings c"
    by (simp add: normalize_restore replaceAll_normalized_no_cr)
  moreover have "?R \<noteq> normalizeLineEndings c"
    unfolding replaceAll_def
    by (rule replaceAllFrom_changes [OF normalize_no_dollar [OF assms(1)] assms(2,3)])
  ultimately show False by simp
qed

lemma effective_step:
  assumes "effective b" "blockFound content b"
  shows "blockStep content b \<noteq> content"
proof -
  from assms(1) have t: "trimEnd (normalizeLineEndings (searchText b))
      = normalizeLineEndings (searchText b)"
    by (simp add: effective_def trimEnd_normalize)
  from assms(2) have inc: "includesStr (normalizeLineEndings content)
      (normalizeLineEndings (searchText b))"
    unfolding blockFound_def t by simp
  then have "blockStep content b
      = replaceWithLineEndingAwareness content (searchText b) (replaceText b)"
    by (simp add: blockStep_def)
  with rwlea_changes [OF _ _ inc, of "replaceText b"] assms(1) show ?thesis
    by (simp add: effective_def)
qed

lemma changedSteps_effective:
  "allFound content blocks \<Longrightarrow> list_all effective blocks \<Longrightarrow>
   changedSteps content blocks = length blocks"
proof (induction blocks arbitrary: content)
  case Nil
  show ?case by simp
next
  case (Cons b bs)
  from Cons.prems have f: "blockFound content b" and r: "allFound (blockStep content b) bs"
    and e: "effective b" and es: "list_all effective bs"
    by simp_all
  from effective_step [OF e f] Cons.IH [OF r es] show ?case by simp
qed

lemma blockStep_pieces:
  assumes s: "normalizeLineEndings (searchText b) \<noteq> []"
    and r: "CHR ''$'' \<notin> set (replaceText b)"
    and us: "list_all (freeOf (normalizeLineEndings (searchText b))) (u # v # vs)"
    and c: "normalizeLineEndings content
            = joinWith (normalizeLineEndings (searchText b)) (u # v # vs)"
  shows "blockFound content b
       \<and> blockStep content b
         = restoreLineEndings (usesCrlf content)
             (joinWith (normalizeLineEndings (replaceText b)) (u # v # vs))"
proof -
  have inc: "includesStr (normalizeLineEndings content) (normalizeLineEndings (searchText b))"
    unfolding c by (rule includesStr_joinWith)
  then have f: "blockFound content b" by (simp add: blockFound_def)
  from inc have "blockStep content b
      = replaceWithLineEndingAwareness content (searchText b) (replaceText b)"
    by (simp add: blockStep_def)
  also have "\<dots> = restoreLineEndings (usesCrlf content)
      (replaceAll (joinWith (normalizeLineEndings (searchText b)) (u # v # vs))
         (normalizeLineEndings (searchText b)) (normalizeLineEndings (replaceText b)))"
    by (simp add: replaceWithLineEndingAwareness_def c)
  also have "replaceAll (joinWith (normalizeLineEndings (searchText b)) (u # v # vs))
         (normalizeLineEndings (searchText b)) (normalizeLineEndings (replaceText b))
      = joinWith (normalizeLineEndings (replaceText b)) (u # v # vs)"
    by (rule replaceAll_joinWith [OF s normalize_no_dollar [OF r] us])
  finally show ?thesis using f by simp
qed


text \<open>
  Claim C2, amended. For every document and every list of \<open>N\<close> blocks, each found in
  the working content at its turn (the working content being the result of the
  replacements of the blocks before it), applying the blocks in order does not fail and
  the final content is the result of the \<open>N\<close> line-ending-aware replacements made in
  order. When moreover every block is effective, that is, its search text has no
  trailing white space (as the parser delivers it), its replacement text has no dollar
  sign, and the two texts differ after normalisation, \<open>blocksApplied\<close> equals \<open>N\<close>. Each
  replacement replaces every occurrence of the search text: when the normalised working
  content consists of pieces free of the normalised search text that are joined by it,
  the replacement yields the same pieces joined by the normalised replacement text,
  converted to the detected style.
\<close>

theorem C2_blocks_in_order:
  "(allFound content blocks \<longrightarrow>
      (\<exists>n. n \<le> length blocks
         \<and> applyBlocks path blocks content 0 = Inr (foldl blockStep content blocks, n)))
   \<and> (allFound content blocks \<and> list_all effective blocks \<longrightarrow>
        applyBlocks path blocks content 0
          = Inr (foldl blockStep content blocks, length blocks))
   \<and> (normalizeLineEndings (searchText b) \<noteq> [] \<and> CHR ''$'' \<notin> set (replaceText b)
       \<and> list_all (freeOf (normalizeLineEndings (searchText b))) (u # v # vs)
       \<and> normalizeLineEndings doc
           = joinWith (normalizeLineEndings (searchText b)) (u # v # vs) \<longrightarrow>
         blockFound doc b
         \<and> blockStep doc b
           = restoreLineEndings (usesCrlf doc)
               (joinWith (normalizeLineEndings (replaceText b)) (u # v # vs)))"
proof (intro conjI impI)
  assume a: "allFound content blocks"
  from applyBlocks_allFound [OF a, of path 0] changedSteps_le [of content blocks]
  show "\<exists>n. n \<le> length blocks
         \<and> applyBlocks path blocks content 0 = Inr (foldl blockStep content blocks, n)"
    by auto
next
  assume "allFound content blocks \<and> list_all effective blocks"
  then have a: "allFound content blocks" and e: "list_all effective blocks" by simp_all
  from applyBlocks_allFound [OF a, of path 0] changedSteps_effective [OF a e]
  show "applyBlocks path blocks content 0
          = Inr (foldl blockStep content blocks, length blocks)" by simp
next
  assume h: "normalizeLineEndings (searchText b) \<noteq> [] \<and> CHR ''$'' \<notin> set (replaceText b)
       \<and> list_all (freeOf (normalizeLineEndings (searchText b))) (u # v # vs)
       \<and> normalizeLineEndings doc
           = joinWith (normalizeLineEndings (searchText b)) (u # v # vs)"
  then have "blockFound doc b
         \<and> blockStep doc b
           = restoreLineEndings (usesCrlf doc)
               (joinWith (normalizeLineEndings (replaceText b)) (u # v # vs))"
    using blockStep_pieces [of b u v vs doc] by blast
  then show "blockFound doc b"
    and "blockStep doc b
           = restoreLineEndings (usesCrlf doc)
               (joinWith (normalizeLineEndings (replaceText b)) (u # v # vs))"
    by simp_all
qed

theorem C2_blocks_in_order_witness:
  "allFound ''foo cat foo''
     [\<lparr>searchText = ''foo'', replaceText = ''bar''\<rparr>,
      \<lparr>searchText = ''cat'', replaceText = ''dog''\<rparr>]
   \<and> list_all effective
       [\<lparr>searchText = ''foo'', replaceText = ''bar''\<rparr>,
        \<lparr>searchText = ''cat'', replaceText = ''dog''\<rparr>]
   \<and> applyBlocks ''note.md''
       [\<lparr>searchText = ''foo'', replaceText = ''bar''\<rparr>,
        \<lparr>searchText = ''cat'', replaceText = ''dog''\<rparr>] ''foo cat foo'' 0
     = Inr (''bar dog bar'', 2)
   \<and> normalizeLineEndings ''foo'' \<noteq> [] \<and> CHR ''$'' \<notin> set ''bar''
   \<and> list_all (freeOf ''foo'') [''a '', [LF] @ ''b '', '' c'']
   \<and> normalizeLineEndings (''a foo'' @ [CR, LF] @ ''b foo c'')
     = joinWith ''foo'' [''a '', [LF] @ ''b '', '' c'']
   \<and> usesCrlf (''a foo'' @ [CR, LF] @ ''b foo c'')
   \<and> blockFound (''a foo'' @ [CR, LF] @ ''b foo c'')
       \<lparr>searchText = ''foo'', replaceText = ''bar''\<rparr>
   \<and> blockStep (''a foo'' @ [CR, LF] @ ''b foo c'')
       \<lparr>searchText = ''foo'', replaceText = ''bar''\<rparr>
     = ''a bar'' @ [CR, LF] @ ''b bar c''"
proof -
  let ?b = "\<lparr>searchText = ''foo'', replaceText = ''bar''\<rparr>"
  let ?blocks = "[?b, \<lparr>searchText = ''cat'', replaceText = ''dog''\<rparr>]"
  let ?doc = "''a foo'' @ [CR, LF] @ ''b foo c''"
  let ?us = "[''a '', [LF] @ ''b '', '' c'']"
  have a: "allFound ''foo cat foo'' ?blocks" by code_simp
  have e: "list_all effective ?blocks" by code_simp
  have fo: "foldl blockStep ''foo cat foo'' ?blocks = ''bar dog bar''" by code_simp
  have ns: "normalizeLineEndings ''foo'' = ''foo''" by code_simp
  have nr: "normalizeLineEndings ''bar'' = ''bar''" by code_simp
  have l: "list_all (freeOf ''foo'') ?us" by code_simp
  have n: "normalizeLineEndings ?doc = joinWith ''foo'' ?us" by code_simp
  have u: "usesCrlf ?doc" by code_simp
  have j: "restoreLineEndings True (joinWith ''bar'' ?us) = ''a bar'' @ [CR, LF] @ ''b bar c''"
    by code_simp
  note t = C2_blocks_in_order [where content = "''foo cat foo''" and blocks = ?blocks
      and path = "''note.md''" and b = ?b and u = "''a ''" and v = "[LF] @ ''b ''"
      and vs = "['' c'']" and doc = ?doc]
  from t a e have r: "applyBlocks ''note.md'' ?blocks ''foo cat foo'' 0
        = Inr (foldl blockStep ''foo cat foo'' ?blocks, length ?blocks)"
    by blast
  have h: "normalizeLineEndings (searchText ?b) \<noteq> [] \<and> CHR ''$'' \<notin> set (replaceText ?b)
       \<and> list_all (freeOf (normalizeLineEndings (searchText ?b))) ?us
       \<and> normalizeLineEndings ?doc = joinWith (normalizeLineEndings (searchText ?b)) ?us"
    using l n by (simp add: ns)
  from t h have s: "blockFound ?doc ?b
         \<and> blockStep ?doc ?b
           = restoreLineEndings (usesCrlf ?doc) (joinWith (normalizeLineEndings (replaceText ?b)) ?us)"
    by blast
  from s u j have s': "blockFound ?doc ?b"
    "blockStep ?doc ?b = ''a bar'' @ [CR, LF] @ ''b bar c''"
    by (simp_all add: nr)
  from a e r l n u s' show ?thesis unfolding fo by (simp add: ns)
qed

section \<open>Properties of the backup guard and of recovery\<close>

lemma gitCommit_no_backup:
  "git w = None \<or> commitError w \<noteq> None \<Longrightarrow> gitCommitBeforeRiskyAction w action = (False, w)"
  by (auto simp: gitCommitBeforeRiskyAction_def split: option.splits)

text \<open>
  Claim C8. For every delete or move whose target root is not under version control, or
  whose backup commit fails, the backup step returns \<open>False\<close> (it is a value, nothing
  is raised) and leaves the world as it is; the destructive action still proceeds, and
  when the store carries it out, the reply is a success that reports that no backup was
  created. The absence of a repository and a failure of the backup never block the
  action.
\<close>

theorem C8_backup_failure_does_not_block:
  assumes "git w = None \<or> commitError w \<noteq> None"
  shows "gitCommitBeforeRiskyAction w action = (False, w)
   \<and> (vault w path = Some (TFile content) \<and> trashError w = None \<longrightarrow>
        deleteNote w path =
          (Deleted False
             (''File '' @ [CHR 0x22] @ path @ [CHR 0x22] @ '' has been moved to trash.''
              @ '' You can restore it from Obsidian's .trash folder or use git to recover.''),
           w\<lparr>vault := (vault w)(path := None)\<rparr>))
   \<and> (vault w sourcePath = Some (TFile content) \<and> vault w destinationPath = None
        \<and> (if CHR ''/'' \<in> set destinationPath \<and> parentFolder destinationPath \<noteq> []
            then ensureFolderExists w (vault w) (parentFolder destinationPath)
            else Inr (vault w)) = Inr v1
        \<and> renameError w = None \<longrightarrow>
        moveNote w sourcePath destinationPath =
          (Moved False sourcePath destinationPath
             (''File moved from '' @ [CHR 0x22] @ sourcePath @ [CHR 0x22]
              @ '' to '' @ [CHR 0x22] @ destinationPath @ [CHR 0x22]
              @ ''. All internal links have been updated.''),
           w\<lparr>vault := v1(sourcePath := None, destinationPath \<mapsto> TFile content)\<rparr>))"
proof (intro conjI impI)
  show "gitCommitBeforeRiskyAction w action = (False, w)"
    by (rule gitCommit_no_backup [OF assms])
next
  assume "vault w path = Some (TFile content) \<and> trashError w = None"
  then show "deleteNote w path =
          (Deleted False
             (''File '' @ [CHR 0x22] @ path @ [CHR 0x22] @ '' has been moved to trash.''
              @ '' You can restore it from Obsidian's .trash folder or use git to recover.''),
           w\<lparr>vault := (vault w)(path := None)\<rparr>)"
    by (simp add: deleteNote_def gitCommit_no_backup [OF assms])
next
  assume a: "vault w sourcePath = Some (TFile content) \<and> vault w destinationPath = None
        \<and> (if CHR ''/'' \<in> set destinationPath \<and> parentFolder destinationPath \<noteq> []
            then ensureFolderExists w (vault w) (parentFolder destinationPath)
            else Inr (vault w)) = Inr v1
        \<and> renameError w = None"
  have g: "gitCommitBeforeRiskyAction (w\<lparr>vault := v1\<rparr>) act = (False, w\<lparr>vault := v1\<rparr>)" for act
    by (rule gitCommit_no_backup) (use assms in simp)
  from a have f: "(if (if CHR ''/'' \<in> set destinationPath then parentFolder destinationPath else [])
            \<noteq> []
        then ensureFolderExists w (vault w)
               (if CHR ''/'' \<in> set destinationPath then parentFolder destinationPath else [])
        else Inr (vault w)) = Inr v1"
    by (auto split: if_splits)
  from a show "moveNote w sourcePath destinationPath =
          (Moved False sourcePath destinationPath
             (''File moved from '' @ [CHR 0x22] @ sourcePath @ [CHR 0x22]
              @ '' to '' @ [CHR 0x22] @ destinationPath @ [CHR 0x22]
              @ ''. All internal links have been updated.''),
           w\<lparr>vault := v1(sourcePath := None, destinationPath \<mapsto> TFile content)\<rparr>)"
    unfolding moveNote_def Let_def f by (simp add: g)
qed

theorem C8_backup_failure_does_not_block_witness:
  "(git (quietWorld [''notes/a.md'' \<mapsto> TFile ''hello'']) = None)
   \<and> gitCommitBeforeRiskyAction (quietWorld [''notes/a.md'' \<mapsto> TFile ''hello''])
        ''Before deleting: notes/a.md''
      = (False, quietWorld [''notes/a.md'' \<mapsto> TFile ''hello''])
   \<and> vault (quietWorld [''notes/a.md'' \<mapsto> TFile ''hello'']) ''notes/a.md''
      = Some (TFile ''hello'')
   \<and> trashError (quietWorld [''notes/a.md'' \<mapsto> TFile ''hello'']) = None
   \<and> deleteNote (quietWorld [''notes/a.md'' \<mapsto> TFile ''hello'']) ''notes/a.md''
      = (Deleted False
           (''File '' @ [CHR 0x22] @ ''notes/a.md'' @ [CHR 0x22] @ '' has been moved to trash.''
            @ '' You can restore it from Obsidian's .trash folder or use git to recover.''),
         (quietWorld [''notes/a.md'' \<mapsto> TFile ''hello''])
           \<lparr>vault := [''notes/a.md'' \<mapsto> TFile ''hello''](''notes/a.md'' := None)\<rparr>)
   \<and> vault (quietWorld [''notes/a.md'' \<mapsto> TFile ''hello'']) ''archive/a.md'' = None
   \<and> renameError (quietWorld [''notes/a.md'' \<mapsto> TFile ''hello'']) = None
   \<and> moveNote (quietWorld [''notes/a.md'' \<mapsto> TFile ''hello'']) ''notes/a.md'' ''archive/a.md''
      = (Moved False ''notes/a.md'' ''archive/a.md''
           (''File moved from '' @ [CHR 0x22] @ ''notes/a.md'' @ [CHR 0x22]
            @ '' to '' @ [CHR 0x22] @ ''archive/a.md'' @ [CHR 0x22]
            @ ''. All internal links have been updated.''),
         (quietWorld [''notes/a.md'' \<mapsto> TFile ''hello''])
           \<lparr>vault := [''notes/a.md'' \<mapsto> TFile ''hello'']
              (''notes/a.md'' := None, ''archive/a.md'' \<mapsto> TFile ''hello'')\<rparr>)"
proof -
  let ?w = "quietWorld [''notes/a.md'' \<mapsto> TFile ''hello'']"
  have g: "git ?w = None \<or> commitError ?w \<noteq> None" by (simp add: quietWorld_def)
  have v: "vault ?w = [''notes/a.md'' \<mapsto> TFile ''hello'']" by (simp add: quietWorld_def)
  have t: "trashError ?w = None" "renameError ?w = None" by (simp_all add: quietWorld_def)
  have e: "(if CHR ''/'' \<in> set ''archive/a.md'' \<and> parentFolder ''archive/a.md'' \<noteq> []
            then ensureFolderExists ?w (vault ?w) (parentFolder ''archive/a.md'')
            else Inr (vault ?w)) = Inr [''notes/a.md'' \<mapsto> TFile ''hello'']"
    by (simp add: quietWorld_def)
  note th = C8_backup_failure_does_not_block [OF g, where action = "''Before deleting: notes/a.md''"
      and path = "''notes/a.md''" and content = "''hello''" and sourcePath = "''notes/a.md''"
      and destinationPath = "''archive/a.md''" and ?v1.0 = "[''notes/a.md'' \<mapsto> TFile ''hello'']"]
  from th v t e show ?thesis by (simp add: quietWorld_def)
qed

subsection \<open>Recovery\<close>

lemma includesStr_snoc:
  assumes "p \<noteq> []" "last p \<noteq> x"
  shows "includesStr (s @ [x]) p = includesStr s p"
proof -
  have "sublist p (s @ [x]) \<longleftrightarrow> sublist p s"
  proof
    assume "sublist p (s @ [x])"
    then consider "sublist p s" | "sublist p [x]"
      | p1 p2 where "p = p1 @ p2" "suffix p1 s" "prefix p2 [x]"
      unfolding sublist_append by blast
    then show "sublist p s"
    proof cases
      case 1
      then show ?thesis .
    next
      case 2
      then have "p = [] \<or> p = [x]" by (cases p) (auto simp: sublist_Cons_right)
      with assms show ?thesis by auto
    next
      case 3
      from 3(3) have "p2 = [] \<or> p2 = [x]" by (cases p2) auto
      with 3(1) assms(2) have "p = p1" by auto
      with 3(2) show ?thesis by auto
    qed
  next
    assume "sublist p s"
    then show "sublist p (s @ [x])" by (auto simp: sublist_append)
  qed
  then show ?thesis by (simp add: includesStr_sublist)
qed

lemma commitInfo_tag:
  "includesStr (subject c @ [LF]) ''[Auto-backup]'' = includesStr (subject c) ''[Auto-backup]''"
  by (rule includesStr_snoc) simp_all

lemma gitLogSubject_commit:
  "git w = Some r \<Longrightarrow> commits r commitHash = Some c \<Longrightarrow>
   gitLogSubject w commitHash = Inr (subject c @ [LF])"
  by (simp add: gitLogSubject_def)

text \<open>A request for a commit whose subject does not carry the tag is rejected.\<close>

lemma undo_rejects_untagged:
  assumes "git w = Some r" "commits r commitHash = Some c"
    and "\<not> includesStr (subject c) ''[Auto-backup]''"
  shows "undoFileOperation w commitHash filePath =
    (Failure (''Commit '' @ commitHash
       @ '' is not an [Auto-backup] commit. Please use listRecentFileOperations to find valid commits.''),
     w)"
  using assms(3)
  by (simp add: undoFileOperation_def gitLogSubject_commit [OF assms(1,2)] commitInfo_tag
      del: includesStr.simps)

text \<open>A request for a path that exists in the vault is rejected.\<close>

lemma undo_rejects_existing:
  assumes "git w = Some r" "commits r commitHash = Some c"
    and "includesStr (subject c) ''[Auto-backup]''" and "vault w filePath \<noteq> None"
  shows "undoFileOperation w commitHash filePath =
    (Failure (''File '' @ [CHR 0x22] @ filePath @ [CHR 0x22]
       @ '' already exists. Delete or move it first if you want to recover an older version.''),
     w)"
  using assms(3,4)
  by (simp add: undoFileOperation_def gitLogSubject_commit [OF assms(1,2)] commitInfo_tag
      del: includesStr.simps)

text \<open>Every failure of a recovery leaves the world as it is.\<close>

lemma undo_failure_keeps_world:
  "undoFileOperation w commitHash filePath = (Failure msg, w') \<Longrightarrow> w' = w"
  by (auto simp: undoFileOperation_def simp del: includesStr.simps
      split: sum.splits if_splits)

text \<open>
  Otherwise the file is written with the content it has in the tree of the parent of the
  commit.
\<close>

lemma undo_restores_from_parent:
  assumes "git w = Some r" "commits r commitHash = Some c"
    and "includesStr (subject c) ''[Auto-backup]''" and "vault w filePath = None"
    and "parent c = Some p" "commits r p = Some pc" "tree pc filePath = Some content"
  shows "undoFileOperation w commitHash filePath =
    (Recovered filePath commitHash
       (''File '' @ [CHR 0x22] @ filePath @ [CHR 0x22]
        @ '' has been recovered from git history. The file has been restored to its state before the operation. You may need to refresh the file tree to see it.''),
     w\<lparr>vault := (vault w)(filePath \<mapsto> TFile content)\<rparr>)"
  using assms(3-)
  by (simp add: undoFileOperation_def gitLogSubject_commit [OF assms(1,2)] commitInfo_tag
      gitCheckoutParent_def assms(1,2) del: includesStr.simps)

text \<open>
  A vault under version control: the note was committed with the text \<open>old text\<close> and
  has been edited since; the next commit gets the hash \<open>s1\<close>.
\<close>

definition editedWorld :: world where
  "editedWorld =
     (quietWorld [''notes/a.md'' \<mapsto> TFile ''new text''])
       \<lparr>git := Some \<lparr>commits = [''h0'' \<mapsto> \<lparr>subject = ''initial'', parent = None,
                                        tree = [''notes/a.md'' \<mapsto> ''old text'']\<rparr>],
                     headCommit = Some ''h0''\<rparr>,
        newCommitHash := ''s1''\<rparr>"

text \<open>The commit of a hash in the repository of a world.\<close>

definition commitAt :: "world \<Rightarrow> hash \<Rightarrow> commit option" where
  "commitAt w h = (case git w of None \<Rightarrow> None | Some r \<Rightarrow> commits r h)"

text \<open>
  Claim C7: a recovery is to restore the file as it was immediately before the guarded
  action. The code does not: in the world above the note holds \<open>new text\<close> when it is
  deleted, and the backup commit \<open>s1\<close> made before the deletion records that text, but
  the recovery from \<open>s1\<close> checks the file out of the parent of \<open>s1\<close> and restores
  \<open>old text\<close>.
\<close>

theorem C7_recovery_restores_parent_state:
  "vault editedWorld ''notes/a.md'' = Some (TFile ''new text'')
   \<and> fst (deleteNote editedWorld ''notes/a.md'')
     = Deleted True
         (''File '' @ [CHR 0x22] @ ''notes/a.md'' @ [CHR 0x22] @ '' has been moved to trash.''
          @ '' A git backup was created before deletion.''
          @ '' You can restore it from Obsidian's .trash folder or use git to recover.'')
   \<and> vault (snd (deleteNote editedWorld ''notes/a.md'')) ''notes/a.md'' = None
   \<and> map_option subject (commitAt (snd (deleteNote editedWorld ''notes/a.md'')) ''s1'')
     = Some ''[Auto-backup] Before deleting: notes/a.md''
   \<and> map_option (\<lambda>c. tree c ''notes/a.md'')
        (commitAt (snd (deleteNote editedWorld ''notes/a.md'')) ''s1'')
     = Some (Some ''new text'')
   \<and> map_option parent (commitAt (snd (deleteNote editedWorld ''notes/a.md'')) ''s1'')
     = Some (Some ''h0'')
   \<and> fst (undoFileOperation (snd (deleteNote editedWorld ''notes/a.md'')) ''s1'' ''notes/a.md'')
     = Recovered ''notes/a.md'' ''s1''
         (''File '' @ [CHR 0x22] @ ''notes/a.md'' @ [CHR 0x22]
          @ '' has been recovered from git history. The file has been restored to its state before the operation. You may need to refresh the file tree to see it.'')
   \<and> vault (snd (undoFileOperation (snd (deleteNote editedWorld ''notes/a.md'')) ''s1''
               ''notes/a.md'')) ''notes/a.md''
     = Some (TFile ''old text'')"
proof -
  let ?s1 = "\<lparr>subject = ''[Auto-backup] Before deleting: notes/a.md'', parent = Some ''h0'',
              tree = snapshot [''notes/a.md'' \<mapsto> TFile ''new text'']\<rparr>"
  let ?h0 = "\<lparr>subject = ''initial'', parent = None, tree = [''notes/a.md'' \<mapsto> ''old text'']\<rparr>"
  let ?r = "\<lparr>commits = [''h0'' \<mapsto> ?h0, ''s1'' \<mapsto> ?s1], headCommit = Some ''s1''\<rparr>"
  let ?w1 = "editedWorld\<lparr>git := Some ?r,
      vault := [''notes/a.md'' \<mapsto> TFile ''new text''](''notes/a.md'' := None)\<rparr>"
  have d: "deleteNote editedWorld ''notes/a.md''
     = (Deleted True
         (''File '' @ [CHR 0x22] @ ''notes/a.md'' @ [CHR 0x22] @ '' has been moved to trash.''
          @ '' A git backup was created before deletion.''
          @ '' You can restore it from Obsidian's .trash folder or use git to recover.''), ?w1)"
    by (simp add: deleteNote_def gitCommitBeforeRiskyAction_def editedWorld_def quietWorld_def)
  have g: "git ?w1 = Some ?r" by simp
  have c: "commits ?r ''s1'' = Some ?s1" by simp
  have t: "includesStr (subject ?s1) ''[Auto-backup]''" by simp
  have v: "vault ?w1 ''notes/a.md'' = None" by simp
  have u: "undoFileOperation ?w1 ''s1'' ''notes/a.md''
     = (Recovered ''notes/a.md'' ''s1''
         (''File '' @ [CHR 0x22] @ ''notes/a.md'' @ [CHR 0x22]
          @ '' has been recovered from git history. The file has been restored to its state before the operation. You may need to refresh the file tree to see it.''),
        ?w1\<lparr>vault := (vault ?w1)(''notes/a.md'' \<mapsto> TFile ''old text'')\<rparr>)"
    by (rule undo_restores_from_parent [OF g c t v, of "''h0''" ?h0]) simp_all
  have e: "vault editedWorld ''notes/a.md'' = Some (TFile ''new text'')"
    by (simp add: editedWorld_def quietWorld_def)
  show ?thesis
    unfolding d fst_conv snd_conv u
    using e by (simp add: commitAt_def snapshot_def)
qed

end
